theory Spec2Isabelle
  imports Main
begin

section \<open>JavaScript strings\<close>

text \<open>
  A JavaScript string is a sequence of UTF-16 code units; \<open>length\<close>, \<open>substring\<close>,
  the regular-expression engine (without the \<open>u\<close> flag) and the textarea's selection
  offsets all count code units. A code unit is modelled by its number (below 65536; no
  arithmetic on code units can overflow in this script). ASCII literals of the source are
  written \<open>asc ''...''\<close>; the Chinese literals are spelled out by code unit.
\<close>

type_synonym jsstring = "nat list"

definition asc :: "string \<Rightarrow> jsstring" where
  "asc s = map of_char s"

text \<open>\<open>String.prototype.substring\<close>: both indices are clamped to \<open>[0, length]\<close> and
  swapped when the first is the larger one; the one-argument form runs to the end.\<close>

definition clampIndex :: "jsstring \<Rightarrow> int \<Rightarrow> nat" where
  "clampIndex s i = nat (min (max i 0) (int (length s)))"

definition substring :: "jsstring \<Rightarrow> int \<Rightarrow> int \<Rightarrow> jsstring" where
  "substring s a b =
     (let a' = clampIndex s a; b' = clampIndex s b;
          lo = min a' b'; hi = max a' b'
      in take (hi - lo) (drop lo s))"

definition substringFrom :: "jsstring \<Rightarrow> int \<Rightarrow> jsstring" where
  "substringFrom s a = drop (clampIndex s a) s"

definition startsWith :: "jsstring \<Rightarrow> jsstring \<Rightarrow> bool" where
  "startsWith s p = (take (length p) s = p)"

definition endsWith :: "jsstring \<Rightarrow> jsstring \<Rightarrow> bool" where
  "endsWith s p = (length p \<le> length s \<and> drop (length s - length p) s = p)"

fun js_includes :: "jsstring \<Rightarrow> jsstring \<Rightarrow> bool" where
  "js_includes [] p = (p = [])"
| "js_includes (x # xs) p = (startsWith (x # xs) p \<or> js_includes xs p)"

text \<open>
  \<open>String.prototype.toLowerCase\<close> is the host's built-in, with the case mappings of
  Unicode; it is not part of the script, so the functions that call it take it as a
  parameter (\<open>lower\<close>) and what is proved of them holds for every such function. On a
  text whose code units are all Basic Latin or CJK (U+2E80 to U+9FFF; \<open>plainText\<close>) the
  built-in lowers A to Z and leaves every other code unit as it is: \<open>lowerPlain\<close> is that
  function, and it stands for the built-in in the example inputs, which are such texts.
\<close>

definition lowerUnit :: "nat \<Rightarrow> nat" where
  "lowerUnit c = (if 65 \<le> c \<and> c \<le> 90 then c + 32 else c)"

definition lowerPlain :: "jsstring \<Rightarrow> jsstring" where
  "lowerPlain s = map lowerUnit s"



text \<open>Number to string, as a template literal renders a non-negative integer below
  \<open>10^21\<close>: its decimal digits.\<close>

fun numberToString :: "nat \<Rightarrow> jsstring" where
  "numberToString n =
     (if n < 10 then [48 + n] else numberToString (n div 10) @ [48 + n mod 10])"

declare numberToString.simps [simp del]

text \<open>The \<open><\<close> of JavaScript on two strings: lexicographic on code units.\<close>

fun js_less :: "jsstring \<Rightarrow> jsstring \<Rightarrow> bool" where
  "js_less [] [] = False"
| "js_less [] (y # ys) = True"
| "js_less (x # xs) [] = False"
| "js_less (x # xs) (y # ys) = (x < y \<or> (x = y \<and> js_less xs ys))"

section \<open>Regular expressions\<close>

text \<open>
  The fragment of the regular-expression language that the script's one pattern uses,
  with the backtracking semantics of \<open>RegExp.prototype.exec\<close>: \<open>rmatch r s\<close> lists, in the
  order the engine tries them, the rests of \<open>s\<close> after each way \<open>r\<close> can match a prefix
  of \<open>s\<close>. Quantifiers are greedy: the longer alternative comes first. \<open>Dot\<close> is the
  wildcard \<open>.\<close>, which matches any code unit but the four line terminators.
\<close>

datatype regex =
    Eps
  | Chr nat
  | Dot
  | CharRange nat nat
  | Seq regex regex
  | Opt regex
  | Plus regex

definition lineTerminator :: "nat \<Rightarrow> bool" where
  "lineTerminator c = (c = 10 \<or> c = 13 \<or> c = 8232 \<or> c = 8233)"

fun rmatch :: "regex \<Rightarrow> jsstring \<Rightarrow> jsstring list" where
  "rmatch Eps s = [s]"
| "rmatch (Chr c) s = (case s of [] \<Rightarrow> [] | x # t \<Rightarrow> if x = c then [t] else [])"
| "rmatch Dot s = (case s of [] \<Rightarrow> [] | x # t \<Rightarrow> if lineTerminator x then [] else [t])"
| "rmatch (CharRange lo hi) s =
     (case s of [] \<Rightarrow> [] | x # t \<Rightarrow> if lo \<le> x \<and> x \<le> hi then [t] else [])"
| "rmatch (Seq a b) s = concat (map (rmatch b) (rmatch a s))"
| "rmatch (Opt a) s = rmatch a s @ [s]"
| "rmatch (Plus a) s =
     concat (map (\<lambda>t. (if length t < length s then rmatch (Plus a) t else []) @ [t])
                 (rmatch a s))"

text \<open>The equation of \<open>Plus\<close> unfolds under its own \<open>if\<close>; it is used by name.\<close>

declare rmatch.simps(7) [simp del]

text \<open>\<open>exec\<close> on a fresh regular expression (no \<open>g\<close> or \<open>y\<close> flag): the match is tried
  at index 0, 1, ... up to the length of the text; the first index where the pattern
  matches gives \<open>match.index\<close> and \<open>match[0]\<close>.\<close>

fun execFrom :: "regex \<Rightarrow> jsstring \<Rightarrow> nat \<Rightarrow> (nat \<times> jsstring) option" where
  "execFrom r [] i =
     (case rmatch r [] of [] \<Rightarrow> None | t # _ \<Rightarrow> Some (i, []))"
| "execFrom r (x # xs) i =
     (case rmatch r (x # xs) of
        [] \<Rightarrow> execFrom r xs (Suc i)
      | t # _ \<Rightarrow> Some (i, take (length (x # xs) - length t) (x # xs)))"

definition exec :: "regex \<Rightarrow> jsstring \<Rightarrow> (nat \<times> jsstring) option" where
  "exec r s = execFrom r s 0"

fun seqs :: "regex list \<Rightarrow> regex" where
  "seqs [] = Eps"
| "seqs (r # rs) = Seq r (seqs rs)"

definition literal :: "jsstring \<Rightarrow> regex" where
  "literal s = seqs (map Chr s)"

section \<open>Configuration (\<open>CONFIG\<close>)\<close>

definition MAX_FILE_SIZE :: nat where
  "MAX_FILE_SIZE = 20 * 1024 * 1024"

definition ASSETS_URL_PREFIX :: jsstring where
  "ASSETS_URL_PREFIX = asc ''https://h1.appinn.me''"

text \<open>\<open>SUPPORTED_MIME_TYPES\<close>: an object used as an ordered table from the category key
  to its test, its Markdown format and its file-picker filter. The keys are the four
  string constants \<open>'image'\<close>, \<open>'video'\<close>, \<open>'audio'\<close> and \<open>'pdf'\<close>.\<close>

datatype fileType = Image | Video | Audio | Pdf

record mimeInfo =
  test :: "jsstring \<Rightarrow> bool"
  format :: "jsstring \<Rightarrow> jsstring \<Rightarrow> jsstring"
  acceptString :: jsstring

definition SUPPORTED_MIME_TYPES :: "(fileType \<times> mimeInfo) list" where
  "SUPPORTED_MIME_TYPES =
     [(Image, \<lparr>test = (\<lambda>t. startsWith t (asc ''image/'')),
               format = (\<lambda>filename url. asc ''!['' @ filename @ asc '']('' @ url @ asc '')''),
               acceptString = asc ''image/*''\<rparr>),
      (Video, \<lparr>test = (\<lambda>t. startsWith t (asc ''video/'')),
               format = (\<lambda>filename url. asc ''!['' @ filename @ asc ''|video]('' @ url @ asc '')''),
               acceptString = asc ''video/*''\<rparr>),
      (Audio, \<lparr>test = (\<lambda>t. startsWith t (asc ''audio/'')),
               format = (\<lambda>filename url. asc ''!['' @ filename @ asc ''|audio]('' @ url @ asc '')''),
               acceptString = asc ''audio/*''\<rparr>),
      (Pdf,   \<lparr>test = (\<lambda>t. t = asc ''application/pdf''),
               format = (\<lambda>filename url. asc ''['' @ filename @ asc ''|attachment]('' @ url @ asc '')''),
               acceptString = asc ''.pdf''\<rparr>)]"

definition CONTENT_FORMAT_BEFORE :: jsstring where
  "CONTENT_FORMAT_BEFORE = [10]"

definition CONTENT_FORMAT_AFTER :: jsstring where
  "CONTENT_FORMAT_AFTER = [10, 10]"

definition ERROR_FILETYPE :: jsstring where "ERROR_FILETYPE = asc ''filetype''"
definition ERROR_FILESIZE :: jsstring where "ERROR_FILESIZE = asc ''filesize''"

section \<open>Application state (\<open>AppState\<close>)\<close>

record uploadRecord =
  insertPosition :: int
  placeholderText :: jsstring
  active :: bool
  timestamp :: nat

record appState =
  uploads :: "jsstring \<rightharpoonup> uploadRecord"
  uploadCounter :: nat

text \<open>\<open>++this.uploadCounter\<close> on a JavaScript number: exact below \<open>2^53\<close>; at \<open>2^53\<close>
  the sum is not representable and rounds back to \<open>2^53\<close>.\<close>

definition increment :: "nat \<Rightarrow> nat" where
  "increment c = (if c < 2 ^ 53 then c + 1 else c)"

text \<open>\<open>generateUploadId\<close>; \<open>now\<close> is what \<open>Date.now()\<close> returns at the call.\<close>

definition generateUploadId :: "nat \<Rightarrow> appState \<Rightarrow> jsstring \<times> appState" where
  "generateUploadId now st =
     (let c = increment (uploadCounter st)
      in (numberToString now @ asc ''-'' @ numberToString c, st\<lparr>uploadCounter := c\<rparr>))"

text \<open>A run of calls to \<open>generateUploadId\<close>, one per clock reading of the list.\<close>

fun generateUploadIds :: "nat list \<Rightarrow> appState \<Rightarrow> jsstring list \<times> appState" where
  "generateUploadIds [] st = ([], st)"
| "generateUploadIds (now # nows) st =
     (let (i, st') = generateUploadId now st;
          (is, st'') = generateUploadIds nows st'
      in (i # is, st''))"

definition addUpload :: "nat \<Rightarrow> jsstring \<Rightarrow> int \<Rightarrow> jsstring \<Rightarrow> appState \<Rightarrow> appState" where
  "addUpload now uploadId position phText st =
     st\<lparr>uploads := (uploads st)(uploadId \<mapsto>
        \<lparr>insertPosition = position, placeholderText = phText, active = True,
         timestamp = now\<rparr>)\<rparr>"

definition getUpload :: "jsstring \<Rightarrow> appState \<Rightarrow> uploadRecord option" where
  "getUpload uploadId st = uploads st uploadId"


section \<open>The editor (\<open>HTMLTextAreaElement\<close>) and \<open>DOMUtils\<close>\<close>

text \<open>
  The text area, by the four properties the script reads and writes. Offsets and the
  scroll position are JavaScript numbers holding integers. Assigning \<open>editor.value\<close>
  replaces the text; where the browser leaves the scroll offset after that is not the
  script's doing, so it is a parameter (\<open>scr\<close>) of every function that assigns the value.
  The selection is assigned by the script after every such assignment. The \<open>input\<close>
  event the script dispatches is handled by the page and does not write to the text area.
\<close>

record editor =
  editor_value :: jsstring
  selectionStart :: int
  selectionEnd :: int
  scrollTop :: int

definition assignValue :: "int \<Rightarrow> jsstring \<Rightarrow> editor \<Rightarrow> editor" where
  "assignValue scr v ed = ed\<lparr>editor_value := v, scrollTop := scr\<rparr>"

definition saveEditorState :: "editor \<Rightarrow> editor" where
  "saveEditorState ed =
     \<lparr>editor_value = editor_value ed, selectionStart = selectionStart ed,
      selectionEnd = selectionEnd ed, scrollTop = scrollTop ed\<rparr>"

section \<open>\<open>FileUtils\<close>\<close>

record jsfile =
  file_name :: jsstring
  file_type :: jsstring
  file_size :: nat

definition getFileType :: "jsfile \<Rightarrow> fileType option" where
  "getFileType file =
     map_option fst (find (\<lambda>(k, info). test info (file_type file)) SUPPORTED_MIME_TYPES)"

record validation =
  valid :: bool
  error :: "jsstring option"

definition validateFile :: "jsfile \<Rightarrow> validation" where
  "validateFile file =
     (if getFileType file = None then \<lparr>valid = False, error = Some ERROR_FILETYPE\<rparr>
      else if file_size file > MAX_FILE_SIZE then \<lparr>valid = False, error = Some ERROR_FILESIZE\<rparr>
      else \<lparr>valid = True, error = None\<rparr>)"

section \<open>\<open>MarkdownFormatter\<close>\<close>


text \<open>The three characters of the placeholder's label, U+4E0A U+4F20 U+4E2D
  ("uploading").\<close>

definition uploadingLabel :: jsstring where
  "uploadingLabel = [19978, 20256, 20013]"

definition getPlaceholderText :: "jsfile \<Rightarrow> jsstring \<Rightarrow> jsstring" where
  "getPlaceholderText file uploadId =
     (let fileType = getFileType file;
          prefix = (if fileType = Some Image \<or> fileType = Some Video \<or> fileType = Some Audio
                    then asc ''!'' else []);
          suffix = (if fileType = Some Video then asc ''|video''
                    else if fileType = Some Audio then asc ''|audio''
                    else if fileType = Some Pdf then asc ''|attachment''
                    else [])
      in prefix @ asc ''['' @ uploadingLabel @ asc ''...'' @ uploadId @ suffix @ asc '']'')"










definition formatContent :: "jsstring \<Rightarrow> jsstring" where
  "formatContent content = CONTENT_FORMAT_BEFORE @ content @ CONTENT_FORMAT_AFTER"

section \<open>\<open>PlaceholderManager\<close>\<close>

text \<open>\<open>insertPlaceholder\<close>; \<open>now\<close> is the reading of \<open>Date.now()\<close> inside \<open>addUpload\<close>. The
  callback \<open>onInserted\<close> is run by the caller's model (\<open>uploadFile\<close>).\<close>

definition insertPlaceholder ::
  "int \<Rightarrow> nat \<Rightarrow> editor \<Rightarrow> editor \<Rightarrow> jsstring \<Rightarrow> jsstring \<Rightarrow> appState \<Rightarrow> editor \<times> appState" where
  "insertPlaceholder scr now ed editorState phText uploadId st =
     (let position = selectionStart editorState;
          scrollTop0 = scrollTop editorState;
          currentText = editor_value ed;
          completeText = formatContent phText;
          ed1 = assignValue scr
                  (substring currentText 0 position @ completeText
                     @ substringFrom currentText position) ed;
          newCursorPosition = position + int (length completeText);
          ed2 = ed1\<lparr>selectionStart := newCursorPosition,
                    selectionEnd := newCursorPosition,
                    scrollTop := scrollTop0\<rparr>
      in (ed2, addUpload now uploadId position phText st))"

text \<open>
  \<open>findPlaceholder\<close> builds its pattern from the template
  \<open>(!)?\[<label>...<uploadId>(\|[a-z]+)?\]\<close>: the id is spliced into the pattern source
  as it is. For an id without pattern syntax characters the pattern is the one below,
  the id matching itself; the ids of \<open>generateUploadId\<close> are digits and one hyphen
  (\<open>idUnit\<close>, \<open>regexLiteralId\<close>).
\<close>

definition idUnit :: "nat \<Rightarrow> bool" where
  "idUnit c = ((48 \<le> c \<and> c \<le> 57) \<or> c = 45)"

definition regexLiteralId :: "jsstring \<Rightarrow> bool" where
  "regexLiteralId uploadId = list_all idUnit uploadId"

definition placeholderRegex :: "jsstring \<Rightarrow> regex" where
  "placeholderRegex uploadId =
     seqs [Opt (Chr 33), Chr 91, literal uploadingLabel, Dot, Dot, Dot, literal uploadId,
           Opt (Seq (Chr 124) (Plus (CharRange 97 122))), Chr 93]"

record span =
  span_start :: int
  span_end :: int
  span_text :: jsstring

definition findPlaceholder :: "jsstring \<Rightarrow> jsstring \<Rightarrow> span option" where
  "findPlaceholder txt uploadId =
     (case exec (placeholderRegex uploadId) txt of
        None \<Rightarrow> None
      | Some (index, m) \<Rightarrow>
          Some \<lparr>span_start = int index, span_end = int index + int (length m),
                span_text = m\<rparr>)"

definition adjustCursorPosition :: "editor \<Rightarrow> editor \<Rightarrow> span \<Rightarrow> int \<Rightarrow> editor" where
  "adjustCursorPosition ed currentState placeholder lengthDiff =
     (let (newSelectionStart, newSelectionEnd) =
            (if selectionStart currentState < span_start placeholder
             then (selectionStart currentState, selectionEnd currentState)
             else if selectionStart currentState \<ge> span_start placeholder
                     \<and> selectionStart currentState \<le> span_end placeholder
             then (span_start placeholder + (span_end placeholder - span_start placeholder)
                     + lengthDiff,
                   span_start placeholder + (span_end placeholder - span_start placeholder)
                     + lengthDiff)
             else if selectionStart currentState > span_end placeholder
             then (selectionStart currentState + lengthDiff,
                   selectionEnd currentState + lengthDiff)
             else (selectionStart currentState, selectionEnd currentState))
      in ed\<lparr>selectionStart := newSelectionStart, selectionEnd := newSelectionEnd,
             scrollTop := scrollTop currentState\<rparr>)"

definition appendToEditor :: "int \<Rightarrow> editor \<Rightarrow> jsstring \<Rightarrow> editor" where
  "appendToEditor scr ed content =
     (let currentText = editor_value ed;
          newText = (if length currentText > 0 \<and> \<not> endsWith currentText [10]
                     then currentText @ [10] else currentText);
          newText' = newText @ formatContent content;
          ed1 = assignValue scr newText' ed
      in ed1\<lparr>selectionStart := int (length newText'),
              selectionEnd := int (length newText')\<rparr>)"

text \<open>\<open>replacePlaceholder\<close>; the second component is the argument the callback
  \<open>onReplaced\<close> receives: \<open>True\<close> after a replacement in place, \<open>False\<close> after an append.\<close>

definition replacePlaceholder :: "int \<Rightarrow> editor \<Rightarrow> jsstring \<Rightarrow> jsstring \<Rightarrow> editor \<times> bool" where
  "replacePlaceholder scr ed uploadId markdownLink =
     (let currentState = saveEditorState ed;
          currentText = editor_value currentState
      in case findPlaceholder currentText uploadId of
           None \<Rightarrow> (appendToEditor scr ed markdownLink, False)
         | Some placeholder \<Rightarrow>
             (let originalLength = span_end placeholder - span_start placeholder;
                  newLength = int (length markdownLink);
                  lengthDiff = newLength - originalLength;
                  newText = substring currentText 0 (span_start placeholder) @ markdownLink
                              @ substringFrom currentText (span_end placeholder);
                  ed1 = assignValue scr newText ed
              in (adjustCursorPosition ed1 currentState placeholder lengthDiff, True)))"

section \<open>\<open>UploadService\<close>\<close>

text \<open>
  The state the upload service works on: the text area, the registry, the calls made
  to \<open>FileUtils.showFileError\<close> (file and error kind; it shows a blocking notice and
  writes nothing else), the transfers handed to \<open>performUpload\<close>, and the number of
  readings taken from the clock. \<open>clock n\<close> is what the \<open>n\<close>-th call of \<open>Date.now()\<close>
  returns.
\<close>

record world =
  w_editor :: editor
  w_app :: appState
  w_errorsShown :: "(jsfile \<times> jsstring option) list"
  w_transfers :: "(jsstring \<times> jsfile) list"
  w_ticks :: nat

definition uploadFile :: "int \<Rightarrow> (nat \<Rightarrow> nat) \<Rightarrow> jsfile \<Rightarrow> world \<Rightarrow> world" where
  "uploadFile scr clock file w =
     (let (uploadId, st1) = generateUploadId (clock (w_ticks w)) (w_app w);
          phText = getPlaceholderText file uploadId;
          editorState = saveEditorState (w_editor w);
          (ed', st2) = insertPlaceholder scr (clock (Suc (w_ticks w))) (w_editor w)
                         editorState phText uploadId st1
      in w\<lparr>w_editor := ed', w_app := st2,
            w_transfers := w_transfers w @ [(uploadId, file)],
            w_ticks := Suc (Suc (w_ticks w))\<rparr>)"

definition processFile :: "int \<Rightarrow> (nat \<Rightarrow> nat) \<Rightarrow> world \<Rightarrow> jsfile \<Rightarrow> world" where
  "processFile scr clock w file =
     (let validation = validateFile file
      in if valid validation then uploadFile scr clock file w
         else w\<lparr>w_errorsShown := w_errorsShown w @ [(file, error validation)]\<rparr>)"

definition processFiles :: "int \<Rightarrow> (nat \<Rightarrow> nat) \<Rightarrow> jsfile list \<Rightarrow> world \<Rightarrow> world" where
  "processFiles scr clock files w = foldl (processFile scr clock) w files"




section \<open>The language of a pattern and of the placeholder\<close>

text \<open>The words a pattern can match, as sets; \<open>rmatch\<close> is related to them below.\<close>

definition plusLang :: "jsstring set \<Rightarrow> jsstring set" where
  "plusLang A = {concat ws | ws. ws \<noteq> [] \<and> set ws \<subseteq> A}"

primrec lang :: "regex \<Rightarrow> jsstring set" where
  "lang Eps = {[]}"
| "lang (Chr c) = {[c]}"
| "lang Dot = {[c] | c. \<not> lineTerminator c}"
| "lang (CharRange lo hi) = {[c] | c. lo \<le> c \<and> c \<le> hi}"
| "lang (Seq a b) = {u @ v | u v. u \<in> lang a \<and> v \<in> lang b}"
| "lang (Opt a) = lang a \<union> {[]}"
| "lang (Plus a) = plusLang (lang a)"

text \<open>The texts the placeholder pattern of an id matches: an optional \<open>!\<close>, \<open>[\<close>, the
  label, any three code units that are not line terminators, the id, an optional \<open>|\<close>
  with one or more lower-case letters, \<open>]\<close>.\<close>

definition optionalBang :: "jsstring \<Rightarrow> bool" where
  "optionalBang b = (b = [] \<or> b = [33])"

definition threeWildcards :: "jsstring \<Rightarrow> bool" where
  "threeWildcards d = (length d = 3 \<and> list_all (\<lambda>c. \<not> lineTerminator c) d)"

definition lowerLetter :: "nat \<Rightarrow> bool" where
  "lowerLetter c = (97 \<le> c \<and> c \<le> 122)"

fun optionalSuffix :: "jsstring \<Rightarrow> bool" where
  "optionalSuffix [] = True"
| "optionalSuffix (c # ls) = (c = 124 \<and> ls \<noteq> [] \<and> list_all lowerLetter ls)"

definition placeholderWord :: "jsstring \<Rightarrow> jsstring \<Rightarrow> jsstring \<Rightarrow> jsstring \<Rightarrow> jsstring" where
  "placeholderWord bang d uploadId suf = bang @ [91] @ uploadingLabel @ d @ uploadId @ suf @ [93]"

definition isPlaceholder :: "jsstring \<Rightarrow> jsstring \<Rightarrow> bool" where
  "isPlaceholder uploadId w =
     (\<exists>bang d suf. optionalBang bang \<and> threeWildcards d \<and> optionalSuffix suf
        \<and> w = placeholderWord bang d uploadId suf)"

text \<open>\<open>w\<close> is a placeholder of the id and stands in \<open>txt\<close> at index \<open>k\<close>.\<close>

definition occursAt :: "jsstring \<Rightarrow> jsstring \<Rightarrow> nat \<Rightarrow> jsstring \<Rightarrow> bool" where
  "occursAt uploadId txt k w = (isPlaceholder uploadId w \<and> take (length w) (drop k txt) = w)"

section \<open>The positions of a placeholder in a text\<close>

text \<open>
  The positions of a placeholder word of the id that stands in \<open>buf\<close> from \<open>k\<close> to \<open>e\<close>:
  \<open>g\<close> is the index of its \<open>[\<close>, the label follows, the id starts at \<open>g + 7\<close> and is
  followed by \<open>]\<close> or \<open>|\<close>, the last code unit is \<open>]\<close>, and from the id to the last code
  unit there are only digits, hyphens, \<open>|\<close> and lower-case letters.
\<close>

definition tailUnit :: "nat \<Rightarrow> bool" where
  "tailUnit c = (idUnit c \<or> c = 124 \<or> lowerLetter c)"

definition placeholderShape :: "jsstring \<Rightarrow> jsstring \<Rightarrow> nat \<Rightarrow> nat \<Rightarrow> nat \<Rightarrow> bool" where
  "placeholderShape uploadId buf k g e =
     ((g = k \<or> (g = Suc k \<and> buf ! k = 33))
      \<and> e \<le> length buf \<and> g + 8 + length uploadId \<le> e
      \<and> buf ! g = 91 \<and> buf ! (g + 1) = 19978 \<and> buf ! (g + 2) = 20256 \<and> buf ! (g + 3) = 20013
      \<and> buf ! (e - 1) = 93
      \<and> (\<forall>i. g + 7 \<le> i \<and> i < e - 1 \<longrightarrow> tailUnit (buf ! i))
      \<and> (\<forall>i < length uploadId. buf ! (g + 7 + i) = uploadId ! i)
      \<and> (buf ! (g + 7 + length uploadId) = 93 \<or> buf ! (g + 7 + length uploadId) = 124))"

section \<open>Example inputs\<close>

definition pngFile :: jsfile where
  "pngFile = \<lparr>file_name = asc ''cat.png'', file_type = asc ''image/png'', file_size = 5 * 1024 * 1024\<rparr>"

definition bigPdf :: jsfile where
  "bigPdf = \<lparr>file_name = asc ''big.pdf'', file_type = asc ''application/pdf'',
             file_size = 25 * 1024 * 1024\<rparr>"

definition world0 :: world where
  "world0 = \<lparr>w_editor = \<lparr>editor_value = asc ''hello'', selectionStart = 2, selectionEnd = 2,
                          scrollTop = 0\<rparr>,
             w_app = \<lparr>uploads = Map.empty, uploadCounter = 0\<rparr>,
             w_errorsShown = [], w_transfers = [], w_ticks = 0\<rparr>"

definition pdfEditor :: editor where
  "pdfEditor = \<lparr>editor_value = asc ''ab'' @ getPlaceholderText bigPdf (asc ''17-1'') @ asc ''xyz'',
                 selectionStart = 27, selectionEnd = 28, scrollTop = 40\<rparr>"

definition plainEditor :: editor where
  "plainEditor = \<lparr>editor_value = asc ''ab'', selectionStart = 1, selectionEnd = 1,
                   scrollTop = 40\<rparr>"

definition emptyEditor :: editor where
  "emptyEditor = \<lparr>editor_value = [], selectionStart = 0, selectionEnd = 0, scrollTop = 0\<rparr>"

definition emptyState :: appState where
  "emptyState = \<lparr>uploads = Map.empty, uploadCounter = 0\<rparr>"


definition counter8 :: appState where
  "counter8 = \<lparr>uploads = Map.empty, uploadCounter = 8\<rparr>"

text \<open>A text whose placeholder has had its dots overwritten, and a text that already holds
  a placeholder-like word for the id that is about to be inserted.\<close>

definition editedEditor :: editor where
  "editedEditor = \<lparr>editor_value = asc ''x'' @ placeholderWord [] (asc ''abc'') (asc ''17-1'') []
                                      @ asc ''y'',
                    selectionStart = 0, selectionEnd = 0, scrollTop = 0\<rparr>"

definition staleEditor :: editor where
  "staleEditor = \<lparr>editor_value = placeholderWord [] (asc ''...'') (asc ''17-1'') [],
                   selectionStart = 12, selectionEnd = 12, scrollTop = 0\<rparr>"

text \<open>A text with the placeholders of two uploads in flight.\<close>

definition twoEditor :: editor where
  "twoEditor = \<lparr>editor_value = getPlaceholderText pngFile (asc ''17-1'') @ [10]
                                   @ getPlaceholderText bigPdf (asc ''17-2''),
                 selectionStart = 0, selectionEnd = 0, scrollTop = 0\<rparr>"

chapter \<open>Properties\<close>

section \<open>Strings: \<open>includes\<close> and \<open>startsWith\<close>\<close>

lemma startsWith_iff: "startsWith s p \<longleftrightarrow> (\<exists>b. s = p @ b)"
  unfolding startsWith_def
  by (metis append_eq_conv_conj append_take_drop_id)

lemma js_includes_iff: "js_includes s p \<longleftrightarrow> (\<exists>a b. s = a @ p @ b)"
proof (induction s)
  case Nil
  then show ?case by auto
next
  case (Cons x xs)
  show ?case
  proof
    assume "js_includes (x # xs) p"
    then consider "startsWith (x # xs) p" | "js_includes xs p" by auto
    then show "\<exists>a b. x # xs = a @ p @ b"
    proof cases
      case 1
      then obtain b where "x # xs = p @ b" using startsWith_iff by blast
      then have "x # xs = [] @ p @ b" by simp
      then show ?thesis by blast
    next
      case 2
      then obtain a b where "xs = a @ p @ b" using Cons.IH by blast
      then have "x # xs = (x # a) @ p @ b" by simp
      then show ?thesis by blast
    qed
  next
    assume "\<exists>a b. x # xs = a @ p @ b"
    then obtain a b where ab: "x # xs = a @ p @ b" by blast
    show "js_includes (x # xs) p"
    proof (cases a)
      case Nil
      then have "startsWith (x # xs) p" using ab startsWith_iff by auto
      then show ?thesis by simp
    next
      case (Cons y ys)
      then have "xs = ys @ p @ b" using ab by simp
      then have "js_includes xs p" using Cons.IH by blast
      then show ?thesis by simp
    qed
  qed
qed

section \<open>The placeholder text\<close>

lemma getFileType_cases:
  "getFileType file =
     (if startsWith (file_type file) (asc ''image/'') then Some Image
      else if startsWith (file_type file) (asc ''video/'') then Some Video
      else if startsWith (file_type file) (asc ''audio/'') then Some Audio
      else if file_type file = asc ''application/pdf'' then Some Pdf
      else None)"
  by (simp add: getFileType_def SUPPORTED_MIME_TYPES_def)

text \<open>
  C6. For every file and upload id the placeholder is prefix, \<open>[\<close>, the label, three
  dots, the id, suffix, \<open>]\<close>: the prefix is \<open>!\<close> for an image, a video or an audio file
  and empty otherwise; the suffix is \<open>|video\<close>, \<open>|audio\<close>, \<open>|attachment\<close> (pdf) or empty
  (image, or no category). So the id is a substring of the placeholder.
\<close>

theorem getPlaceholderText_form:
  "(getFileType file = Some Image \<longrightarrow>
      getPlaceholderText file uploadId = asc ''!['' @ uploadingLabel @ asc ''...'' @ uploadId @ asc '']'')
   \<and> (getFileType file = Some Video \<longrightarrow>
      getPlaceholderText file uploadId = asc ''!['' @ uploadingLabel @ asc ''...'' @ uploadId @ asc ''|video]'')
   \<and> (getFileType file = Some Audio \<longrightarrow>
      getPlaceholderText file uploadId = asc ''!['' @ uploadingLabel @ asc ''...'' @ uploadId @ asc ''|audio]'')
   \<and> (getFileType file = Some Pdf \<longrightarrow>
      getPlaceholderText file uploadId = asc ''['' @ uploadingLabel @ asc ''...'' @ uploadId @ asc ''|attachment]'')
   \<and> (getFileType file = None \<longrightarrow>
      getPlaceholderText file uploadId = asc ''['' @ uploadingLabel @ asc ''...'' @ uploadId @ asc '']'')
   \<and> js_includes (getPlaceholderText file uploadId) uploadId"
proof -
  have "\<exists>a b. getPlaceholderText file uploadId = a @ uploadId @ b"
    unfolding getPlaceholderText_def Let_def by (metis append.assoc)
  then have "js_includes (getPlaceholderText file uploadId) uploadId"
    by (simp add: js_includes_iff)
  then show ?thesis
    by (simp add: getPlaceholderText_def asc_def)
qed

lemma getFileType_pngFile: "getFileType pngFile = Some Image"
  by (simp add: getFileType_cases pngFile_def startsWith_def asc_def)

theorem getPlaceholderText_form_witness:
  "getFileType pngFile = Some Image
   \<and> getPlaceholderText pngFile (asc ''17-1'') = [33, 91, 19978, 20256, 20013, 46, 46, 46, 49, 55, 45, 49, 93]
   \<and> js_includes (getPlaceholderText pngFile (asc ''17-1'')) (asc ''17-1'')"
  using getPlaceholderText_form [of pngFile "asc ''17-1''"] getFileType_pngFile
  by (simp add: asc_def uploadingLabel_def startsWith_def)

section \<open>Validation and local rejection\<close>

lemma processFile_invalid:
  "\<not> valid (validateFile file) \<Longrightarrow>
     processFile scr clock w file
       = w\<lparr>w_errorsShown := w_errorsShown w @ [(file, error (validateFile file))]\<rparr>"
  by (simp add: processFile_def)

lemma processFiles_all_invalid:
  "\<forall>f \<in> set files. \<not> valid (validateFile f) \<Longrightarrow>
     w_editor (processFiles scr clock files w) = w_editor w
     \<and> w_app (processFiles scr clock files w) = w_app w
     \<and> w_transfers (processFiles scr clock files w) = w_transfers w"
  unfolding processFiles_def
  by (induction files arbitrary: w) (simp_all add: processFile_invalid)

text \<open>
  C7. \<open>validateFile\<close> answers \<open>filetype\<close> when the MIME type passes none of the four
  tests, \<open>filesize\<close> when it passes one and the size is above 20 MiB, and valid otherwise.
  A file that fails is only reported (\<open>showFileError\<close>): the text area, the registry and
  the list of transfers are what they were.
\<close>

theorem validateFile_rejects_locally:
  "(getFileType file = None \<longleftrightarrow>
       \<not> startsWith (file_type file) (asc ''image/'')
       \<and> \<not> startsWith (file_type file) (asc ''video/'')
       \<and> \<not> startsWith (file_type file) (asc ''audio/'')
       \<and> file_type file \<noteq> asc ''application/pdf'')
   \<and> (getFileType file = None \<longrightarrow>
         validateFile file = \<lparr>valid = False, error = Some ERROR_FILETYPE\<rparr>)
   \<and> (getFileType file \<noteq> None \<and> file_size file > 20 * 1024 * 1024 \<longrightarrow>
         validateFile file = \<lparr>valid = False, error = Some ERROR_FILESIZE\<rparr>)
   \<and> (getFileType file \<noteq> None \<and> file_size file \<le> 20 * 1024 * 1024 \<longrightarrow>
         validateFile file = \<lparr>valid = True, error = None\<rparr>)
   \<and> (\<not> valid (validateFile file) \<longrightarrow>
         processFiles scr clock [file] w
           = w\<lparr>w_errorsShown := w_errorsShown w @ [(file, error (validateFile file))]\<rparr>
         \<and> w_editor (processFiles scr clock [file] w) = w_editor w
         \<and> w_app (processFiles scr clock [file] w) = w_app w
         \<and> w_transfers (processFiles scr clock [file] w) = w_transfers w)"
proof -
  have a: "getFileType file = None \<longleftrightarrow>
       \<not> startsWith (file_type file) (asc ''image/'')
       \<and> \<not> startsWith (file_type file) (asc ''video/'')
       \<and> \<not> startsWith (file_type file) (asc ''audio/'')
       \<and> file_type file \<noteq> asc ''application/pdf''"
    by (simp add: getFileType_cases)
  have b: "getFileType file = None \<longrightarrow>
         validateFile file = \<lparr>valid = False, error = Some ERROR_FILETYPE\<rparr>"
    by (simp add: validateFile_def)
  have c: "getFileType file \<noteq> None \<and> file_size file > 20 * 1024 * 1024 \<longrightarrow>
         validateFile file = \<lparr>valid = False, error = Some ERROR_FILESIZE\<rparr>"
    by (simp add: validateFile_def MAX_FILE_SIZE_def)
  have d: "getFileType file \<noteq> None \<and> file_size file \<le> 20 * 1024 * 1024 \<longrightarrow>
         validateFile file = \<lparr>valid = True, error = None\<rparr>"
    by (simp add: validateFile_def MAX_FILE_SIZE_def)
  have e: "\<not> valid (validateFile file) \<longrightarrow>
         processFiles scr clock [file] w
           = w\<lparr>w_errorsShown := w_errorsShown w @ [(file, error (validateFile file))]\<rparr>
         \<and> w_editor (processFiles scr clock [file] w) = w_editor w
         \<and> w_app (processFiles scr clock [file] w) = w_app w
         \<and> w_transfers (processFiles scr clock [file] w) = w_transfers w"
    by (simp add: processFiles_def processFile_invalid)
  from a b c d e show ?thesis by blast
qed

lemma getFileType_bigPdf: "getFileType bigPdf = Some Pdf"
  by (simp add: getFileType_cases bigPdf_def startsWith_def asc_def)

theorem validateFile_rejects_locally_witness:
  "getFileType bigPdf \<noteq> None \<and> file_size bigPdf > 20 * 1024 * 1024
   \<and> validateFile bigPdf = \<lparr>valid = False, error = Some ERROR_FILESIZE\<rparr>
   \<and> \<not> valid (validateFile bigPdf)
   \<and> w_editor (processFiles 0 (\<lambda>n. 1700000000000) [bigPdf] world0) = w_editor world0
   \<and> editor_value (w_editor (processFiles 0 (\<lambda>n. 1700000000000) [bigPdf] world0)) = asc ''hello''
   \<and> w_transfers (processFiles 0 (\<lambda>n. 1700000000000) [bigPdf] world0) = []"
proof -
  have t: "getFileType bigPdf \<noteq> None" by (simp add: getFileType_bigPdf)
  have s: "file_size bigPdf > 20 * 1024 * 1024" by (simp add: bigPdf_def)
  note inst = validateFile_rejects_locally [of bigPdf 0 "\<lambda>n. 1700000000000" world0]
  from inst t s have v: "validateFile bigPdf = \<lparr>valid = False, error = Some ERROR_FILESIZE\<rparr>"
    by blast
  then have nv: "\<not> valid (validateFile bigPdf)" by simp
  from inst nv have "w_editor (processFiles 0 (\<lambda>n. 1700000000000) [bigPdf] world0) = w_editor world0"
    and "w_transfers (processFiles 0 (\<lambda>n. 1700000000000) [bigPdf] world0) = w_transfers world0"
    by blast+
  with t s v nv show ?thesis by (simp add: world0_def)
qed

section \<open>Failure markers\<close>










section \<open>Replacing a placeholder\<close>

lemmas find_eval = findPlaceholder_def exec_def placeholderRegex_def literal_def
  uploadingLabel_def asc_def lineTerminator_def rmatch.simps(7)

lemma substring_0: "0 \<le> b \<Longrightarrow> substring s 0 b = take (nat b) s"
  by (simp add: substring_def clampIndex_def Let_def min_def nat_le_iff)

lemma substringFrom_nonneg: "0 \<le> a \<Longrightarrow> substringFrom s a = drop (nat a) s"
  by (simp add: substringFrom_def clampIndex_def min_def max_def nat_le_iff)

lemma findPlaceholder_span:
  "findPlaceholder txt uploadId = Some sp \<Longrightarrow>
     0 \<le> span_start sp \<and> span_end sp = span_start sp + int (length (span_text sp))"
  by (auto simp: findPlaceholder_def split: option.splits)

lemma replacePlaceholder_found:
  assumes "findPlaceholder (editor_value ed) uploadId = Some sp"
  shows "replacePlaceholder scr ed uploadId r =
           (adjustCursorPosition
              (assignValue scr (take (nat (span_start sp)) (editor_value ed) @ r
                                  @ drop (nat (span_end sp)) (editor_value ed)) ed)
              (saveEditorState ed) sp (int (length r) - (span_end sp - span_start sp)),
            True)"
proof -
  from findPlaceholder_span [OF assms]
  have s: "0 \<le> span_start sp" and e: "0 \<le> span_end sp" by auto
  have v: "editor_value (saveEditorState ed) = editor_value ed"
    by (simp add: saveEditorState_def)
  show ?thesis
    unfolding replacePlaceholder_def Let_def v
    by (simp add: assms substring_0 [OF s] substringFrom_nonneg [OF e])
qed

lemma replacePlaceholder_found_value:
  assumes "findPlaceholder (editor_value ed) uploadId = Some sp"
  shows "editor_value (fst (replacePlaceholder scr ed uploadId r))
           = take (nat (span_start sp)) (editor_value ed) @ r
               @ drop (nat (span_end sp)) (editor_value ed)"
  by (simp add: replacePlaceholder_found [OF assms] adjustCursorPosition_def assignValue_def
        Let_def split: prod.splits)

text \<open>
  C1. When the placeholder of the id is found at \<open>[s, e)\<close> and the replacement has length
  \<open>n\<close>, the new selection start is the old one \<open>c\<close> if \<open>c < s\<close>, \<open>s + n\<close> if
  \<open>s \<le> c \<le> e\<close>, and \<open>c + (n - (e - s))\<close> if \<open>c > e\<close>; since \<open>s \<le> e\<close> exactly one of the
  three cases applies. The scroll offset is the one before the replacement, wherever the
  browser left it after the text was assigned.
\<close>

theorem replacePlaceholder_cursor:
  assumes "regexLiteralId uploadId"
    and "findPlaceholder (editor_value ed) uploadId = Some sp"
  shows "(selectionStart ed < span_start sp \<longrightarrow>
            selectionStart (fst (replacePlaceholder scr ed uploadId r)) = selectionStart ed)
       \<and> (span_start sp \<le> selectionStart ed \<and> selectionStart ed \<le> span_end sp \<longrightarrow>
            selectionStart (fst (replacePlaceholder scr ed uploadId r))
              = span_start sp + int (length r))
       \<and> (span_end sp < selectionStart ed \<longrightarrow>
            selectionStart (fst (replacePlaceholder scr ed uploadId r))
              = selectionStart ed + (int (length r) - (span_end sp - span_start sp)))
       \<and> scrollTop (fst (replacePlaceholder scr ed uploadId r)) = scrollTop ed
       \<and> span_start sp \<le> span_end sp
       \<and> snd (replacePlaceholder scr ed uploadId r)"
proof -
  from findPlaceholder_span [OF assms(2)] have le: "span_start sp \<le> span_end sp" by simp
  show ?thesis
    using le
    by (simp add: replacePlaceholder_found [OF assms(2)] adjustCursorPosition_def
          saveEditorState_def Let_def)
qed

lemma regexLiteralId_17_1: "regexLiteralId (asc ''17-1'')"
  by (simp add: regexLiteralId_def idUnit_def asc_def)

lemma findPlaceholder_pdfEditor:
  "findPlaceholder (editor_value pdfEditor) (asc ''17-1'')
     = Some \<lparr>span_start = 2, span_end = 25,
             span_text = getPlaceholderText bigPdf (asc ''17-1'')\<rparr>"
  by (simp add: pdfEditor_def find_eval getPlaceholderText_def getFileType_bigPdf)

theorem replacePlaceholder_cursor_witness:
  "regexLiteralId (asc ''17-1'')
   \<and> findPlaceholder (editor_value pdfEditor) (asc ''17-1'')
       = Some \<lparr>span_start = 2, span_end = 25,
               span_text = getPlaceholderText bigPdf (asc ''17-1'')\<rparr>
   \<and> selectionStart pdfEditor = 27
   \<and> selectionStart (fst (replacePlaceholder 0 pdfEditor (asc ''17-1'') (asc ''LINK''))) = 8
   \<and> scrollTop (fst (replacePlaceholder 0 pdfEditor (asc ''17-1'') (asc ''LINK''))) = 40"
  using replacePlaceholder_cursor [OF regexLiteralId_17_1 findPlaceholder_pdfEditor,
      of 0 "asc ''LINK''"]
    regexLiteralId_17_1 findPlaceholder_pdfEditor
  by (simp add: pdfEditor_def asc_def)

section \<open>The fallback: appending\<close>

lemma endsWith_newline: "endsWith s [10] \<longleftrightarrow> (s \<noteq> [] \<and> last s = 10)"
proof (cases s rule: rev_cases)
  case Nil
  then show ?thesis by (simp add: endsWith_def)
next
  case (snoc ys y)
  then show ?thesis by (auto simp: endsWith_def)
qed

text \<open>
  C3, as the code has it. When the placeholder of the id is not in the text,
  \<open>replacePlaceholder\<close> reports \<open>False\<close> and the text becomes the old text, a newline if the
  old text is not empty and does not end in one, and then the replacement in its
  configured wrapping: a newline before it and two after it. Selection start and end are
  the length of the new text.
\<close>

theorem replacePlaceholder_fallback:
  assumes "regexLiteralId uploadId"
    and "findPlaceholder (editor_value ed) uploadId = None"
  shows "snd (replacePlaceholder scr ed uploadId r) = False
       \<and> editor_value (fst (replacePlaceholder scr ed uploadId r))
           = editor_value ed
             @ (if editor_value ed \<noteq> [] \<and> last (editor_value ed) \<noteq> 10 then [10] else [])
             @ [10] @ r @ [10, 10]
       \<and> selectionStart (fst (replacePlaceholder scr ed uploadId r))
           = int (length (editor_value (fst (replacePlaceholder scr ed uploadId r))))
       \<and> selectionEnd (fst (replacePlaceholder scr ed uploadId r))
           = int (length (editor_value (fst (replacePlaceholder scr ed uploadId r))))"
  using assms(2)
  by (simp add: replacePlaceholder_def saveEditorState_def appendToEditor_def assignValue_def
        formatContent_def CONTENT_FORMAT_BEFORE_def CONTENT_FORMAT_AFTER_def Let_def
        endsWith_newline)

lemma findPlaceholder_plainEditor:
  "findPlaceholder (editor_value plainEditor) (asc ''17-1'') = None"
  by (simp add: plainEditor_def find_eval)

theorem replacePlaceholder_fallback_witness:
  "regexLiteralId (asc ''17-1'')
   \<and> findPlaceholder (editor_value plainEditor) (asc ''17-1'') = None
   \<and> editor_value (fst (replacePlaceholder 0 plainEditor (asc ''17-1'') (asc ''LINK'')))
       = asc ''ab'' @ [10, 10] @ asc ''LINK'' @ [10, 10]
   \<and> selectionStart (fst (replacePlaceholder 0 plainEditor (asc ''17-1'') (asc ''LINK''))) = 10
   \<and> selectionEnd (fst (replacePlaceholder 0 plainEditor (asc ''17-1'') (asc ''LINK''))) = 10"
  using replacePlaceholder_fallback [OF regexLiteralId_17_1 findPlaceholder_plainEditor,
      of 0 "asc ''LINK''"]
    regexLiteralId_17_1 findPlaceholder_plainEditor
  by (simp add: plainEditor_def asc_def)

text \<open>The claim as it is written (the text becomes the old text, the separating newline
  and the replacement) fails already on the empty text: the text is then a newline, the
  replacement and two newlines.\<close>

theorem replacePlaceholder_fallback_counterexample:
  "findPlaceholder (editor_value emptyEditor) (asc ''17-1'') = None
   \<and> editor_value (fst (replacePlaceholder 0 emptyEditor (asc ''17-1'') (asc ''LINK'')))
       = [10] @ asc ''LINK'' @ [10, 10]
   \<and> editor_value (fst (replacePlaceholder 0 emptyEditor (asc ''17-1'') (asc ''LINK'')))
       \<noteq> editor_value emptyEditor @ asc ''LINK''"
  by (simp add: emptyEditor_def find_eval replacePlaceholder_def saveEditorState_def
        appendToEditor_def assignValue_def formatContent_def CONTENT_FORMAT_BEFORE_def
        CONTENT_FORMAT_AFTER_def Let_def endsWith_def)

section \<open>Classifying a transfer failure\<close>

lemma lowerPlain_append: "lowerPlain (a @ b) = lowerPlain a @ lowerPlain b"
  by (simp add: lowerPlain_def)

lemma js_includes_lowerPlain:
  "js_includes s p \<Longrightarrow> js_includes (lowerPlain s) (lowerPlain p)"
  unfolding js_includes_iff by (metis lowerPlain_append)

lemma includes_403_lowerPlain:
  "js_includes err (asc ''403'') \<Longrightarrow> js_includes (lowerPlain err) (asc ''403'')"
  using js_includes_lowerPlain [of err "asc ''403''"]
  by (simp add: lowerPlain_def lowerUnit_def asc_def)

text \<open>A lowering that leaves the digits \<open>403\<close> where they stand, as the built-in does
  (its mappings are per character and a digit is its own lower case), keeps them in the
  lowered description.\<close>

lemma includes_403_lower:
  assumes "\<forall>a b. \<exists>a' b'. lower (a @ asc ''403'' @ b) = a' @ asc ''403'' @ b'"
    and "js_includes err (asc ''403'')"
  shows "js_includes (lower err) (asc ''403'')"
proof -
  from assms(2) obtain a b where "err = a @ asc ''403'' @ b"
    unfolding js_includes_iff by blast
  with assms(1) show ?thesis unfolding js_includes_iff by metis
qed







section \<open>Upload ids\<close>

lemma numberToString_digits: "\<forall>c \<in> set (numberToString n). 48 \<le> c \<and> c \<le> 57"
proof (induction n rule: numberToString.induct)
  case (1 n)
  show ?case
  proof (cases "n < 10")
    case True
    then show ?thesis by (simp add: numberToString.simps [of n])
  next
    case False
    with 1 have "\<forall>c \<in> set (numberToString (n div 10)). 48 \<le> c \<and> c \<le> 57" by simp
    moreover have "n mod 10 < 10" by simp
    ultimately show ?thesis using False
      by (auto simp: numberToString.simps [of n])
  qed
qed

lemma numberToString_nonempty: "numberToString n \<noteq> []"
  by (simp add: numberToString.simps [of n])

text \<open>Reading the digits back gives the number, so the rendering is injective.\<close>

lemma numberToString_read:
  "foldl (\<lambda>a c. 10 * a + (c - 48)) 0 (numberToString n) = n"
proof (induction n rule: numberToString.induct)
  case (1 n)
  show ?case
  proof (cases "n < 10")
    case True
    then show ?thesis by (simp add: numberToString.simps [of n])
  next
    case False
    with 1 have "foldl (\<lambda>a c. 10 * a + (c - 48)) 0 (numberToString (n div 10)) = n div 10"
      by simp
    then show ?thesis using False
      by (simp add: numberToString.simps [of n])
  qed
qed

lemma numberToString_inj: "numberToString a = numberToString b \<Longrightarrow> a = b"
  by (metis numberToString_read)

lemma regexLiteralId_numberToString: "list_all idUnit (numberToString n)"
  using numberToString_digits [of n] by (simp add: list_all_iff idUnit_def)

lemma uploadId_inj:
  assumes "numberToString t @ asc ''-'' @ numberToString c
             = numberToString t' @ asc ''-'' @ numberToString c'"
  shows "t = t' \<and> c = c'"
proof -
  have a: "45 \<notin> set (numberToString t)"
    using numberToString_digits [of t] by auto
  have b: "45 \<notin> set (numberToString c)"
    using numberToString_digits [of c] by auto
  from assms have "numberToString t @ 45 # numberToString c
                     = numberToString t' @ 45 # numberToString c'"
    by (simp add: asc_def)
  then have "numberToString t = numberToString t' \<and> numberToString c = numberToString c'"
    using append_Cons_eq_iff [OF a b] by blast
  then show ?thesis using numberToString_inj by blast
qed

lemma generateUploadId_literal: "regexLiteralId (fst (generateUploadId now st))"
proof -
  have "idUnit 45" by (simp add: idUnit_def)
  then show ?thesis
    using regexLiteralId_numberToString
    by (simp add: generateUploadId_def Let_def regexLiteralId_def asc_def)
qed

lemma generateUploadIds_nth:
  "uploadCounter st + length nows \<le> 2 ^ 53 \<Longrightarrow>
     length (fst (generateUploadIds nows st)) = length nows
     \<and> uploadCounter (snd (generateUploadIds nows st)) = uploadCounter st + length nows
     \<and> (\<forall>k < length nows. fst (generateUploadIds nows st) ! k
           = numberToString (nows ! k) @ asc ''-'' @ numberToString (uploadCounter st + k + 1))"
proof (induction nows arbitrary: st)
  case Nil
  then show ?case by simp
next
  case (Cons now nows)
  define st' where "st' = snd (generateUploadId now st)"
  from Cons.prems have lt: "uploadCounter st < 2 ^ 53" by simp
  then have c': "uploadCounter st' = uploadCounter st + 1"
    by (simp add: st'_def generateUploadId_def Let_def increment_def)
  have i: "fst (generateUploadId now st)
             = numberToString now @ asc ''-'' @ numberToString (uploadCounter st + 1)"
    using lt by (simp add: generateUploadId_def Let_def increment_def)
  from Cons.prems c' have "uploadCounter st' + length nows \<le> 2 ^ 53" by simp
  from Cons.IH [OF this] c'
  have ih: "length (fst (generateUploadIds nows st')) = length nows"
    "uploadCounter (snd (generateUploadIds nows st')) = uploadCounter st + 1 + length nows"
    "\<forall>k < length nows. fst (generateUploadIds nows st') ! k
        = numberToString (nows ! k) @ asc ''-'' @ numberToString (uploadCounter st + 1 + k + 1)"
    by simp_all
  have unf: "generateUploadIds (now # nows) st
               = (fst (generateUploadId now st) # fst (generateUploadIds nows st'),
                  snd (generateUploadIds nows st'))"
    by (simp add: st'_def split: prod.splits)
  show ?case
  proof (intro conjI allI impI)
    show "length (fst (generateUploadIds (now # nows) st)) = length (now # nows)"
      by (simp add: unf ih(1) del: generateUploadIds.simps)
    show "uploadCounter (snd (generateUploadIds (now # nows) st))
            = uploadCounter st + length (now # nows)"
      by (simp add: unf ih(2) del: generateUploadIds.simps)
    fix k assume k: "k < length (now # nows)"
    show "fst (generateUploadIds (now # nows) st) ! k
            = numberToString ((now # nows) ! k) @ asc ''-''
                @ numberToString (uploadCounter st + k + 1)"
    proof (cases k)
      case 0
      then show ?thesis by (simp add: unf i del: generateUploadIds.simps)
    next
      case (Suc j)
      with k have "j < length nows" by simp
      with ih(3) Suc show ?thesis by (simp add: unf del: generateUploadIds.simps)
    qed
  qed
qed

text \<open>
  C9, as the code has it. A run of calls that keeps the counter within the exact range
  of a JavaScript number (\<open>2^53\<close>) returns pairwise distinct ids; the \<open>k\<close>-th id is the
  clock reading of that call, a hyphen and the counter, which has grown by one at each
  call. What grows strictly is the counter inside the id, not the id, which is a string.
\<close>

theorem generateUploadIds_distinct:
  assumes "uploadCounter st + length nows \<le> 2 ^ 53"
  shows "length (fst (generateUploadIds nows st)) = length nows
       \<and> distinct (fst (generateUploadIds nows st))
       \<and> (\<forall>k < length nows. fst (generateUploadIds nows st) ! k
             = numberToString (nows ! k) @ asc ''-''
                 @ numberToString (uploadCounter st + k + 1))
       \<and> uploadCounter (snd (generateUploadIds nows st)) = uploadCounter st + length nows"
proof -
  note n = generateUploadIds_nth [OF assms]
  from n have len: "length (fst (generateUploadIds nows st)) = length nows" by (rule conjunct1)
  from n have nth: "\<And>k. k < length nows \<Longrightarrow> fst (generateUploadIds nows st) ! k
          = numberToString (nows ! k) @ asc ''-'' @ numberToString (uploadCounter st + k + 1)"
    by (simp del: generateUploadIds.simps)
  have "distinct (fst (generateUploadIds nows st))"
    unfolding distinct_conv_nth len
  proof (intro allI impI)
    fix i j
    assume i: "i < length nows" and j: "j < length nows" and ne: "i \<noteq> j"
    show "fst (generateUploadIds nows st) ! i \<noteq> fst (generateUploadIds nows st) ! j"
    proof
      assume "fst (generateUploadIds nows st) ! i = fst (generateUploadIds nows st) ! j"
      then have "numberToString (nows ! i) @ asc ''-'' @ numberToString (uploadCounter st + i + 1)
          = numberToString (nows ! j) @ asc ''-'' @ numberToString (uploadCounter st + j + 1)"
        by (simp only: nth [OF i] nth [OF j])
      from uploadId_inj [OF this] have "uploadCounter st + i + 1 = uploadCounter st + j + 1"
        by (rule conjunct2)
      with ne show False by simp
    qed
  qed
  with n show ?thesis by (simp del: generateUploadIds.simps)
qed

lemma generateUploadIds_counter8:
  "fst (generateUploadIds [1700000000000, 1700000000000] counter8)
     = [asc ''1700000000000-9'', asc ''1700000000000-10'']"
  by (simp add: counter8_def generateUploadId_def increment_def Let_def
        numberToString.simps asc_def)

theorem generateUploadIds_distinct_witness:
  "uploadCounter counter8 + length [1700000000000, 1700000000000 :: nat] \<le> 2 ^ 53
   \<and> fst (generateUploadIds [1700000000000, 1700000000000] counter8)
       = [asc ''1700000000000-9'', asc ''1700000000000-10'']
   \<and> distinct (fst (generateUploadIds [1700000000000, 1700000000000] counter8))
   \<and> uploadCounter (snd (generateUploadIds [1700000000000, 1700000000000] counter8)) = 10"
proof -
  have h: "uploadCounter counter8 + length [1700000000000, 1700000000000 :: nat] \<le> 2 ^ 53"
    by (simp add: counter8_def)
  from generateUploadIds_distinct [OF h] h generateUploadIds_counter8
  show ?thesis by (simp add: counter8_def)
qed

text \<open>The claim as it is written (each id greater than every earlier one) fails: ids are
  strings, and the id made when the counter goes from nine to ten is the smaller one.\<close>

theorem generateUploadIds_order_counterexample:
  "fst (generateUploadIds [1700000000000, 1700000000000] counter8)
     = [asc ''1700000000000-9'', asc ''1700000000000-10'']
   \<and> js_less (asc ''1700000000000-10'') (asc ''1700000000000-9'')
   \<and> \<not> js_less (asc ''1700000000000-9'') (asc ''1700000000000-10'')"
  by (simp add: counter8_def generateUploadId_def increment_def Let_def
        numberToString.simps asc_def)

section \<open>The matcher and the language\<close>

lemma rmatch_Plus_mem:
  "t' \<in> set (rmatch (Plus a) s) \<longleftrightarrow>
     (\<exists>t \<in> set (rmatch a s). t' = t \<or> (length t < length s \<and> t' \<in> set (rmatch (Plus a) t)))"
  by (subst rmatch.simps(7)) auto

lemma plusLang_single: "w \<in> A \<Longrightarrow> w \<in> plusLang A"
proof -
  assume "w \<in> A"
  then have "[w] \<noteq> [] \<and> set [w] \<subseteq> A \<and> w = concat [w]" by simp
  then show ?thesis unfolding plusLang_def by blast
qed

lemma plusLang_step: "w \<in> A \<Longrightarrow> v \<in> plusLang A \<Longrightarrow> w @ v \<in> plusLang A"
proof -
  assume w: "w \<in> A" and "v \<in> plusLang A"
  then obtain ws where ws: "ws \<noteq> []" "set ws \<subseteq> A" "v = concat ws"
    unfolding plusLang_def by blast
  with w have "w # ws \<noteq> [] \<and> set (w # ws) \<subseteq> A \<and> w @ v = concat (w # ws)" by simp
  then show ?thesis unfolding plusLang_def by blast
qed

lemma rmatch_Plus_sound:
  assumes a: "\<And>s t. t \<in> set (rmatch a s) \<Longrightarrow> \<exists>w \<in> lang a. s = w @ t"
  shows "t' \<in> set (rmatch (Plus a) s) \<Longrightarrow> \<exists>w \<in> plusLang (lang a). s = w @ t'"
proof (induction "length s" arbitrary: s rule: less_induct)
  case less
  from less.prems obtain t where t: "t \<in> set (rmatch a s)"
    and c: "t' = t \<or> (length t < length s \<and> t' \<in> set (rmatch (Plus a) t))"
    using rmatch_Plus_mem by blast
  from a [OF t] obtain w where w: "w \<in> lang a" "s = w @ t" by blast
  from c show ?case
  proof
    assume "t' = t"
    with w plusLang_single show ?thesis by blast
  next
    assume "length t < length s \<and> t' \<in> set (rmatch (Plus a) t)"
    with less.hyps obtain v where v: "v \<in> plusLang (lang a)" "t = v @ t'" by blast
    with w have "w @ v \<in> plusLang (lang a)" "s = (w @ v) @ t'"
      by (simp_all add: plusLang_step)
    then show ?thesis by blast
  qed
qed

lemma rmatch_Plus_complete:
  assumes a: "\<And>s w t. w \<in> lang a \<Longrightarrow> s = w @ t \<Longrightarrow> t \<in> set (rmatch a s)"
  shows "ws \<noteq> [] \<Longrightarrow> set ws \<subseteq> lang a \<Longrightarrow> t' \<in> set (rmatch (Plus a) (concat ws @ t'))"
proof (induction ws)
  case Nil
  then show ?case by simp
next
  case (Cons w ws)
  from Cons.prems have w: "w \<in> lang a" by simp
  show ?case
  proof (cases "ws = []")
    case True
    with w a have "t' \<in> set (rmatch a (concat (w # ws) @ t'))" by simp
    then show ?thesis using rmatch_Plus_mem by blast
  next
    case False
    with Cons have ih: "t' \<in> set (rmatch (Plus a) (concat ws @ t'))" by simp
    from w a have t: "concat ws @ t' \<in> set (rmatch a (concat (w # ws) @ t'))" by simp
    show ?thesis
    proof (cases "w = []")
      case True
      with ih show ?thesis by simp
    next
      case False
      then have "length (concat ws @ t') < length (concat (w # ws) @ t')" by simp
      with t ih show ?thesis using rmatch_Plus_mem by blast
    qed
  qed
qed

lemma rmatch_lang: "t \<in> set (rmatch r s) \<longleftrightarrow> (\<exists>w \<in> lang r. s = w @ t)"
proof (induction r arbitrary: s t)
  case Eps
  then show ?case by auto
next
  case (Chr c)
  then show ?case by (cases s) auto
next
  case Dot
  then show ?case by (cases s) auto
next
  case (CharRange lo hi)
  then show ?case by (cases s) auto
next
  case (Seq a b)
  show ?case
  proof
    assume "t \<in> set (rmatch (Seq a b) s)"
    then obtain m where "m \<in> set (rmatch a s)" "t \<in> set (rmatch b m)" by auto
    with Seq obtain u v where "u \<in> lang a" "s = u @ m" "v \<in> lang b" "m = v @ t" by blast
    then have "u @ v \<in> lang (Seq a b)" "s = (u @ v) @ t" by auto
    then show "\<exists>w \<in> lang (Seq a b). s = w @ t" by blast
  next
    assume "\<exists>w \<in> lang (Seq a b). s = w @ t"
    then obtain u v where uv: "u \<in> lang a" "v \<in> lang b" "s = (u @ v) @ t" by auto
    then have "v @ t \<in> set (rmatch a s)" using Seq.IH(1) by auto
    moreover have "t \<in> set (rmatch b (v @ t))" using uv Seq.IH(2) by blast
    ultimately show "t \<in> set (rmatch (Seq a b) s)" by auto
  qed
next
  case (Opt a)
  then show ?case by auto
next
  case (Plus a)
  show ?case
  proof
    assume "t \<in> set (rmatch (Plus a) s)"
    then have "\<exists>w \<in> plusLang (lang a). s = w @ t"
      using rmatch_Plus_sound [of a t s] Plus.IH by blast
    then show "\<exists>w \<in> lang (Plus a). s = w @ t" by simp
  next
    assume "\<exists>w \<in> lang (Plus a). s = w @ t"
    then obtain ws where "ws \<noteq> []" "set ws \<subseteq> lang a" "s = concat ws @ t"
      unfolding lang.simps plusLang_def by blast
    then show "t \<in> set (rmatch (Plus a) s)"
      using rmatch_Plus_complete [of a ws t] Plus.IH by blast
  qed
qed

lemma lang_seqs_Cons: "lang (seqs (r # rs)) = {u @ v | u v. u \<in> lang r \<and> v \<in> lang (seqs rs)}"
  by simp

lemma lang_literal: "lang (literal s) = {s}"
  unfolding literal_def by (induction s) auto

lemma plusLang_units:
  "plusLang {[c] | c. P c} = {ls. ls \<noteq> [] \<and> list_all P ls}"
proof (intro equalityI subsetI)
  fix x assume "x \<in> plusLang {[c] | c. P c}"
  then obtain ws where ws: "ws \<noteq> []" "set ws \<subseteq> {[c] | c. P c}" "x = concat ws"
    unfolding plusLang_def by blast
  have "set ws \<subseteq> {[c] | c. P c} \<Longrightarrow> list_all P (concat ws) \<and> length (concat ws) = length ws"
    by (induction ws) auto
  with ws show "x \<in> {ls. ls \<noteq> [] \<and> list_all P ls}" by fastforce
next
  fix x assume "x \<in> {ls. ls \<noteq> [] \<and> list_all P ls}"
  then have x: "x \<noteq> []" "list_all P x" by auto
  have "concat (map (\<lambda>c. [c]) x) = x" by (induction x) auto
  moreover have "set (map (\<lambda>c. [c]) x) \<subseteq> {[c] | c. P c}"
    using x(2) by (auto simp: list_all_iff)
  moreover have "map (\<lambda>c. [c]) x \<noteq> []" using x(1) by simp
  ultimately show "x \<in> plusLang {[c] | c. P c}"
    unfolding plusLang_def by (metis (mono_tags, lifting) mem_Collect_eq)
qed

lemma lang_bang: "lang (Opt (Chr 33)) = {b. optionalBang b}"
  by (auto simp: optionalBang_def)

lemma lang_suffix:
  "lang (Opt (Seq (Chr 124) (Plus (CharRange 97 122)))) = {s. optionalSuffix s}"
proof -
  have "lang (Plus (CharRange 97 122)) = {ls. ls \<noteq> [] \<and> list_all lowerLetter ls}"
    using plusLang_units [of "\<lambda>c. 97 \<le> c \<and> c \<le> 122"]
    by (simp add: lowerLetter_def [abs_def])
  then have "lang (Opt (Seq (Chr 124) (Plus (CharRange 97 122))))
               = {[]} \<union> {124 # ls | ls. ls \<noteq> [] \<and> list_all lowerLetter ls}"
    by auto
  also have "\<dots> = {s. optionalSuffix s}"
  proof (intro equalityI subsetI)
    fix x assume "x \<in> {[]} \<union> {124 # ls | ls. ls \<noteq> [] \<and> list_all lowerLetter ls}"
    then show "x \<in> {s. optionalSuffix s}" by auto
  next
    fix x assume "x \<in> {s. optionalSuffix s}"
    then show "x \<in> {[]} \<union> {124 # ls | ls. ls \<noteq> [] \<and> list_all lowerLetter ls}"
      by (cases x) auto
  qed
  finally show ?thesis .
qed

lemma lang_SeqI: "u \<in> lang a \<Longrightarrow> v \<in> lang b \<Longrightarrow> u @ v \<in> lang (Seq a b)"
  by auto

lemma lang_DotI: "\<not> lineTerminator c \<Longrightarrow> [c] \<in> lang Dot"
  by simp

lemma lang_dots:
  "lang (Seq Dot (Seq Dot (Seq Dot r))) = {d @ v | d v. threeWildcards d \<and> v \<in> lang r}"
proof (intro equalityI subsetI)
  fix x assume "x \<in> lang (Seq Dot (Seq Dot (Seq Dot r)))"
  then obtain a b c v where "x = [a, b, c] @ v" "\<not> lineTerminator a" "\<not> lineTerminator b"
    "\<not> lineTerminator c" "v \<in> lang r"
    by auto
  then have "threeWildcards [a, b, c] \<and> x = [a, b, c] @ v \<and> v \<in> lang r"
    by (simp add: threeWildcards_def)
  then show "x \<in> {d @ v | d v. threeWildcards d \<and> v \<in> lang r}" by blast
next
  fix x assume "x \<in> {d @ v | d v. threeWildcards d \<and> v \<in> lang r}"
  then obtain d v where d: "threeWildcards d" "v \<in> lang r" "x = d @ v" by blast
  then obtain a b c where abc: "d = [a, b, c]"
    by (auto simp: threeWildcards_def length_Suc_conv numeral_3_eq_3)
  with d(1) have nl: "\<not> lineTerminator a" "\<not> lineTerminator b" "\<not> lineTerminator c"
    by (simp_all add: threeWildcards_def)
  have "[a] @ [b] @ [c] @ v \<in> lang (Seq Dot (Seq Dot (Seq Dot r)))"
    by (intro lang_SeqI lang_DotI nl d(2))
  with d(3) abc show "x \<in> lang (Seq Dot (Seq Dot (Seq Dot r)))" by simp
qed

lemma lang_placeholderRegex: "lang (placeholderRegex uploadId) = {w. isPlaceholder uploadId w}"
proof -
  have tail: "lang (seqs [literal uploadId, Opt (Seq (Chr 124) (Plus (CharRange 97 122))), Chr 93])
          = {uploadId @ suf @ [93] | suf. optionalSuffix suf}"
    unfolding seqs.simps lang.simps(5) [of "literal uploadId"]
      lang.simps(5) [of "Opt (Seq (Chr 124) (Plus (CharRange 97 122)))"]
      lang_literal lang_suffix
    by auto
  have dots: "lang (seqs [Dot, Dot, Dot, literal uploadId,
                Opt (Seq (Chr 124) (Plus (CharRange 97 122))), Chr 93])
          = {d @ uploadId @ suf @ [93] | d suf. threeWildcards d \<and> optionalSuffix suf}"
    using lang_dots [of "seqs [literal uploadId,
                Opt (Seq (Chr 124) (Plus (CharRange 97 122))), Chr 93]"]
    unfolding tail by auto
  have "lang (placeholderRegex uploadId)
          = {b @ [91] @ uploadingLabel @ v | b v. optionalBang b
               \<and> v \<in> lang (seqs [Dot, Dot, Dot, literal uploadId,
                Opt (Seq (Chr 124) (Plus (CharRange 97 122))), Chr 93])}"
    unfolding placeholderRegex_def seqs.simps(2) [of "Opt (Chr 33)"] seqs.simps(2) [of "Chr 91"]
      seqs.simps(2) [of "literal uploadingLabel"] lang.simps(5) [of "Opt (Chr 33)"]
      lang.simps(5) [of "Chr 91"] lang.simps(5) [of "literal uploadingLabel"]
      lang_literal lang_bang lang.simps(2)
    by (fastforce simp del: seqs.simps lang.simps)
  also have "\<dots> = {w. isPlaceholder uploadId w}"
    unfolding dots isPlaceholder_def placeholderWord_def by auto
  finally show ?thesis .
qed

section \<open>A placeholder is matched in one way only\<close>

lemma split_at_unit:
  "x \<notin> set a \<Longrightarrow> x \<notin> set c \<Longrightarrow> a @ x # b = c @ x # d \<Longrightarrow> a = c \<and> b = d"
proof (induction a arbitrary: c)
  case Nil
  then show ?case by (cases c) simp_all
next
  case (Cons z zs)
  show ?case
  proof (cases c)
    case Nil
    with Cons.prems show ?thesis by simp
  next
    case (Cons y ys)
    with Cons.prems have "z = y" "zs @ x # b = ys @ x # d" "x \<notin> set zs" "x \<notin> set ys"
      by simp_all
    with Cons.IH [of ys] Cons show ?thesis by simp
  qed
qed

lemma optionalSuffix_units:
  "optionalSuffix s \<Longrightarrow> \<forall>c \<in> set s. c = 124 \<or> lowerLetter c"
  by (cases s) (auto simp: list_all_iff)

lemma optionalSuffix_no_bracket: "optionalSuffix s \<Longrightarrow> 93 \<notin> set s"
  using optionalSuffix_units [of s] by (auto simp: lowerLetter_def)

lemma isPlaceholder_deterministic:
  assumes "isPlaceholder uploadId w1" and "isPlaceholder uploadId w2"
    and eq: "w1 @ t1 = w2 @ t2"
  shows "w1 = w2 \<and> t1 = t2"
proof -
  from assms(1) obtain b1 d1 s1 where 1: "optionalBang b1" "threeWildcards d1"
    "optionalSuffix s1" "w1 = b1 @ [91] @ uploadingLabel @ d1 @ uploadId @ s1 @ [93]"
    unfolding isPlaceholder_def placeholderWord_def by blast
  from assms(2) obtain b2 d2 s2 where 2: "optionalBang b2" "threeWildcards d2"
    "optionalSuffix s2" "w2 = b2 @ [91] @ uploadingLabel @ d2 @ uploadId @ s2 @ [93]"
    unfolding isPlaceholder_def placeholderWord_def by blast
  from eq 1(4) 2(4)
  have e: "b1 @ 91 # uploadingLabel @ d1 @ uploadId @ s1 @ 93 # t1
         = b2 @ 91 # uploadingLabel @ d2 @ uploadId @ s2 @ 93 # t2"
    by simp
  have b: "b1 = b2"
    using 1(1) 2(1) e by (auto simp: optionalBang_def)
  with e have e2: "d1 @ uploadId @ s1 @ 93 # t1 = d2 @ uploadId @ s2 @ 93 # t2" by simp
  have "length d1 = length d2" using 1(2) 2(2) by (simp add: threeWildcards_def)
  with e2 have d: "d1 = d2" and e3: "s1 @ 93 # t1 = s2 @ 93 # t2" by simp_all
  from split_at_unit [OF optionalSuffix_no_bracket [OF 1(3)] optionalSuffix_no_bracket [OF 2(3)] e3]
  have "s1 = s2" "t1 = t2" by simp_all
  with b d 1(4) 2(4) show ?thesis by simp
qed

lemma isPlaceholder_nonempty: "isPlaceholder uploadId w \<Longrightarrow> w \<noteq> []"
  unfolding isPlaceholder_def placeholderWord_def by auto

lemma rmatch_placeholder_nonempty:
  "rmatch (placeholderRegex uploadId) s \<noteq> [] \<longleftrightarrow> (\<exists>w t. isPlaceholder uploadId w \<and> s = w @ t)"
proof -
  have "rmatch (placeholderRegex uploadId) s \<noteq> []
          \<longleftrightarrow> (\<exists>t. t \<in> set (rmatch (placeholderRegex uploadId) s))"
    by (cases "rmatch (placeholderRegex uploadId) s") auto
  also have "\<dots> \<longleftrightarrow> (\<exists>t. \<exists>w \<in> lang (placeholderRegex uploadId). s = w @ t)"
    by (simp only: rmatch_lang)
  also have "\<dots> \<longleftrightarrow> (\<exists>w t. isPlaceholder uploadId w \<and> s = w @ t)"
    unfolding lang_placeholderRegex by blast
  finally show ?thesis .
qed

lemma rmatch_placeholder_hd:
  assumes "isPlaceholder uploadId w"
  shows "rmatch (placeholderRegex uploadId) (w @ t) \<noteq> []
       \<and> hd (rmatch (placeholderRegex uploadId) (w @ t)) = t"
proof -
  from assms have ne: "rmatch (placeholderRegex uploadId) (w @ t) \<noteq> []"
    using rmatch_placeholder_nonempty by blast
  then have "hd (rmatch (placeholderRegex uploadId) (w @ t))
               \<in> set (rmatch (placeholderRegex uploadId) (w @ t))"
    by simp
  then obtain w' where "w' \<in> lang (placeholderRegex uploadId)"
    "w @ t = w' @ hd (rmatch (placeholderRegex uploadId) (w @ t))"
    unfolding rmatch_lang by blast
  then have "isPlaceholder uploadId w'"
    and "w @ t = w' @ hd (rmatch (placeholderRegex uploadId) (w @ t))"
    unfolding lang_placeholderRegex by simp_all
  from isPlaceholder_deterministic [OF assms this]
  have "t = hd (rmatch (placeholderRegex uploadId) (w @ t))" by (rule conjunct2)
  then have "hd (rmatch (placeholderRegex uploadId) (w @ t)) = t" by (rule sym)
  with ne show ?thesis by (rule conjI)
qed

section \<open>The search of \<open>exec\<close>\<close>

lemma execFrom_None_iff:
  "execFrom r s i = None \<longleftrightarrow> (\<forall>k \<le> length s. rmatch r (drop k s) = [])"
proof (induction s arbitrary: i)
  case Nil
  then show ?case by (simp split: list.splits)
next
  case (Cons x xs)
  show ?case
  proof (cases "rmatch r (x # xs)")
    case Nil
    have "(\<forall>k \<le> length (x # xs). rmatch r (drop k (x # xs)) = [])
            \<longleftrightarrow> (\<forall>k \<le> length xs. rmatch r (drop k xs) = [])"
    proof
      assume a: "\<forall>k \<le> length (x # xs). rmatch r (drop k (x # xs)) = []"
      show "\<forall>k \<le> length xs. rmatch r (drop k xs) = []"
      proof (intro allI impI)
        fix k assume "k \<le> length xs"
        with a have "rmatch r (drop (Suc k) (x # xs)) = []" by (simp del: drop_Suc_Cons)
        then show "rmatch r (drop k xs) = []" by simp
      qed
    next
      assume a: "\<forall>k \<le> length xs. rmatch r (drop k xs) = []"
      show "\<forall>k \<le> length (x # xs). rmatch r (drop k (x # xs)) = []"
      proof (intro allI impI)
        fix k assume k: "k \<le> length (x # xs)"
        show "rmatch r (drop k (x # xs)) = []"
        proof (cases k)
          case 0
          with Nil show ?thesis by simp
        next
          case (Suc j)
          with k a show ?thesis by simp
        qed
      qed
    qed
    with Nil Cons.IH [of "Suc i"] show ?thesis by simp
  next
    case (Cons t ts)
    then have "\<not> (\<forall>k \<le> length (x # xs). rmatch r (drop k (x # xs)) = [])"
      by (metis drop0 le0 list.distinct(1))
    with Cons show ?thesis by simp
  qed
qed

lemma execFrom_least:
  "k \<le> length s \<Longrightarrow> rmatch r (drop k s) \<noteq> [] \<Longrightarrow> (\<forall>j < k. rmatch r (drop j s) = []) \<Longrightarrow>
     execFrom r s i
       = Some (i + k, take (length (drop k s) - length (hd (rmatch r (drop k s)))) (drop k s))"
proof (induction s arbitrary: i k)
  case Nil
  then show ?case by (simp split: list.splits)
next
  case (Cons x xs)
  show ?case
  proof (cases k)
    case 0
    with Cons.prems show ?thesis by (simp split: list.splits)
  next
    case (Suc j)
    with Cons.prems have first: "rmatch r (x # xs) = []" by fastforce
    from Suc Cons.prems have j: "j \<le> length xs" "rmatch r (drop j xs) \<noteq> []" by simp_all
    have "\<forall>m < j. rmatch r (drop m xs) = []"
    proof (intro allI impI)
      fix m assume "m < j"
      with Suc Cons.prems(3) have "rmatch r (drop (Suc m) (x # xs)) = []"
        by (simp del: drop_Suc_Cons)
      then show "rmatch r (drop m xs) = []" by simp
    qed
    from Cons.IH [OF j this, of "Suc i"] first Suc show ?thesis by simp
  qed
qed

section \<open>What \<open>findPlaceholder\<close> finds\<close>

lemma occursAt_iff:
  "occursAt uploadId txt k w \<longleftrightarrow> isPlaceholder uploadId w \<and> (\<exists>t. drop k txt = w @ t)"
  unfolding occursAt_def
  by (metis append_eq_conv_conj append_take_drop_id)

lemma occursAt_bound: "occursAt uploadId txt k w \<Longrightarrow> k + length w \<le> length txt"
proof -
  assume "occursAt uploadId txt k w"
  then obtain t where "drop k txt = w @ t" and ne: "w \<noteq> []"
    using occursAt_iff isPlaceholder_nonempty by blast
  then have "length (drop k txt) = length w + length t" by simp
  with ne show ?thesis by (cases "k \<le> length txt") auto
qed

lemma rmatch_occurs:
  "rmatch (placeholderRegex uploadId) (drop k txt) \<noteq> [] \<longleftrightarrow> (\<exists>w. occursAt uploadId txt k w)"
  unfolding rmatch_placeholder_nonempty occursAt_iff by blast

lemma findPlaceholder_None_iff:
  "findPlaceholder txt uploadId = None \<longleftrightarrow> (\<forall>k w. \<not> occursAt uploadId txt k w)"
proof -
  have "findPlaceholder txt uploadId = None
          \<longleftrightarrow> (\<forall>k \<le> length txt. rmatch (placeholderRegex uploadId) (drop k txt) = [])"
  proof -
    have "findPlaceholder txt uploadId = None
            \<longleftrightarrow> execFrom (placeholderRegex uploadId) txt 0 = None"
      by (cases "execFrom (placeholderRegex uploadId) txt 0")
         (auto simp: findPlaceholder_def exec_def)
    then show ?thesis by (simp only: execFrom_None_iff)
  qed
  also have "\<dots> \<longleftrightarrow> (\<forall>k \<le> length txt. \<forall>w. \<not> occursAt uploadId txt k w)"
    using rmatch_occurs by blast
  also have "\<dots> \<longleftrightarrow> (\<forall>k w. \<not> occursAt uploadId txt k w)"
    using occursAt_bound by (metis add_leE)
  finally show ?thesis .
qed

lemma findPlaceholder_at:
  assumes occ: "occursAt uploadId txt k w"
    and least: "\<forall>j < k. \<forall>w'. \<not> occursAt uploadId txt j w'"
  shows "findPlaceholder txt uploadId
           = Some \<lparr>span_start = int k, span_end = int k + int (length w), span_text = w\<rparr>"
proof -
  from occ obtain t where w: "isPlaceholder uploadId w" and t: "drop k txt = w @ t"
    using occursAt_iff by blast
  from occursAt_bound [OF occ] have k: "k \<le> length txt" by simp
  from rmatch_placeholder_hd [OF w, of t] t
  have ne: "rmatch (placeholderRegex uploadId) (drop k txt) \<noteq> []"
    and h: "hd (rmatch (placeholderRegex uploadId) (drop k txt)) = t"
    by simp_all
  from least have l: "\<forall>j < k. rmatch (placeholderRegex uploadId) (drop j txt) = []"
    using rmatch_occurs by blast
  have "take (length (drop k txt) - length t) (drop k txt) = w"
    unfolding t by simp
  with execFrom_least [OF k ne l, of 0] h
  have "exec (placeholderRegex uploadId) txt = Some (k, w)"
    by (simp add: exec_def)
  then show ?thesis by (simp add: findPlaceholder_def)
qed

lemma findPlaceholder_SomeD:
  assumes "findPlaceholder txt uploadId = Some sp"
  shows "\<exists>k. occursAt uploadId txt k (span_text sp)
           \<and> span_start sp = int k \<and> span_end sp = int k + int (length (span_text sp))
           \<and> (\<forall>j < k. \<forall>w'. \<not> occursAt uploadId txt j w')"
proof -
  from assms have "\<exists>k. \<exists>w. occursAt uploadId txt k w"
    using findPlaceholder_None_iff [of "txt" uploadId] by auto
  then obtain k where k: "\<exists>w. occursAt uploadId txt k w"
    and least: "\<forall>j < k. \<not> (\<exists>w. occursAt uploadId txt j w)"
    using exists_least_iff [of "\<lambda>k. \<exists>w. occursAt uploadId txt k w"] by blast
  from k obtain w where w: "occursAt uploadId txt k w" by blast
  from least have "\<forall>j < k. \<forall>w'. \<not> occursAt uploadId txt j w'" by blast
  from findPlaceholder_at [OF w this] assms
  have "sp = \<lparr>span_start = int k, span_end = int k + int (length w), span_text = w\<rparr>" by simp
  with w least show ?thesis by auto
qed

section \<open>Lookup with wildcards\<close>

lemma occursAt_word:
  assumes "optionalBang bang" "threeWildcards d" "optionalSuffix suf"
  shows "occursAt uploadId (a @ placeholderWord bang d uploadId suf @ b) (length a)
           (placeholderWord bang d uploadId suf)"
proof -
  from assms have "isPlaceholder uploadId (placeholderWord bang d uploadId suf)"
    unfolding isPlaceholder_def by blast
  then show ?thesis by (simp add: occursAt_def)
qed

text \<open>
  C10. A text that holds, anywhere, an optional \<open>!\<close>, \<open>[\<close>, the label, any three code
  units that are not line terminators (the newline characters LF, CR, LS and PS), the
  id, an optional \<open>|\<close> with lower-case letters and \<open>]\<close> is matched by \<open>findPlaceholder\<close>;
  the span it returns is an occurrence of such a word, no occurrence starts to its left,
  and it is that very word when none starts before it. \<open>replacePlaceholder\<close> then
  replaces the span.
\<close>

theorem findPlaceholder_wildcards:
  assumes "regexLiteralId uploadId"
    and "optionalBang bang" and "threeWildcards d" and "optionalSuffix suf"
  shows "\<exists>sp k. findPlaceholder (a @ placeholderWord bang d uploadId suf @ b) uploadId = Some sp
       \<and> span_start sp = int k \<and> k \<le> length a
       \<and> span_end sp = span_start sp + int (length (span_text sp))
       \<and> occursAt uploadId (a @ placeholderWord bang d uploadId suf @ b) k (span_text sp)
       \<and> (\<forall>j w. occursAt uploadId (a @ placeholderWord bang d uploadId suf @ b) j w
             \<longrightarrow> k \<le> j)
       \<and> ((\<forall>j < length a. \<forall>w.
               \<not> occursAt uploadId (a @ placeholderWord bang d uploadId suf @ b) j w)
           \<longrightarrow> k = length a \<and> span_text sp = placeholderWord bang d uploadId suf)
       \<and> (\<forall>scr ed r. editor_value ed = a @ placeholderWord bang d uploadId suf @ b \<longrightarrow>
             snd (replacePlaceholder scr ed uploadId r)
             \<and> editor_value (fst (replacePlaceholder scr ed uploadId r))
                 = take k (editor_value ed) @ r
                     @ drop (k + length (span_text sp)) (editor_value ed))"
proof -
  define buf where "buf = a @ placeholderWord bang d uploadId suf @ b"
  define word where "word = placeholderWord bang d uploadId suf"
  have here: "occursAt uploadId buf (length a) word"
    unfolding buf_def word_def by (rule occursAt_word [OF assms(2-4)])
  then have "findPlaceholder buf uploadId \<noteq> None"
    using findPlaceholder_None_iff by blast
  then obtain sp where sp: "findPlaceholder buf uploadId = Some sp" by blast
  from findPlaceholder_SomeD [OF sp] obtain k where k: "occursAt uploadId buf k (span_text sp)"
    "span_start sp = int k" "span_end sp = int k + int (length (span_text sp))"
    "\<forall>j < k. \<forall>w'. \<not> occursAt uploadId buf j w'"
    by blast
  from k(4) here have le: "k \<le> length a" by (meson not_le)
  from k(4) have leftmost: "\<forall>j w. occursAt uploadId buf j w \<longrightarrow> k \<le> j" by (meson not_le)
  have exact: "k = length a \<and> span_text sp = word"
    if none: "\<forall>j < length a. \<forall>w. \<not> occursAt uploadId buf j w"
  proof -
    from none k(1) le have eq: "k = length a" by (meson le_neq_implies_less)
    from findPlaceholder_at [OF here none] sp have "span_text sp = word" by simp
    with eq show ?thesis by simp
  qed
  have repl: "snd (replacePlaceholder scr ed uploadId r)
             \<and> editor_value (fst (replacePlaceholder scr ed uploadId r))
                 = take k (editor_value ed) @ r
                     @ drop (k + length (span_text sp)) (editor_value ed)"
    if v: "editor_value ed = buf" for scr ed r
  proof -
    from sp v have f: "findPlaceholder (editor_value ed) uploadId = Some sp" by simp
    have "nat (span_end sp) = k + length (span_text sp)" using k(2,3) by simp
    then show ?thesis
      using replacePlaceholder_found [OF f, of scr r] replacePlaceholder_found_value [OF f, of scr r]
        k(2)
      by simp
  qed
  have "findPlaceholder buf uploadId = Some sp
       \<and> span_start sp = int k \<and> k \<le> length a
       \<and> span_end sp = span_start sp + int (length (span_text sp))
       \<and> occursAt uploadId buf k (span_text sp)
       \<and> (\<forall>j w. occursAt uploadId buf j w \<longrightarrow> k \<le> j)
       \<and> ((\<forall>j < length a. \<forall>w. \<not> occursAt uploadId buf j w)
           \<longrightarrow> k = length a \<and> span_text sp = word)
       \<and> (\<forall>scr ed r. editor_value ed = buf \<longrightarrow>
             snd (replacePlaceholder scr ed uploadId r)
             \<and> editor_value (fst (replacePlaceholder scr ed uploadId r))
                 = take k (editor_value ed) @ r
                     @ drop (k + length (span_text sp)) (editor_value ed))"
  proof (intro conjI allI impI)
    show "findPlaceholder buf uploadId = Some sp" by (rule sp)
    show "span_start sp = int k" by (rule k(2))
    show "k \<le> length a" by (rule le)
    show "span_end sp = span_start sp + int (length (span_text sp))" using k(2,3) by simp
    show "occursAt uploadId buf k (span_text sp)" by (rule k(1))
    show "k \<le> j" if "occursAt uploadId buf j w" for j w using leftmost that by blast
    show "k = length a" if "\<forall>j < length a. \<forall>w. \<not> occursAt uploadId buf j w"
      using exact [OF that] by simp
    show "span_text sp = word" if "\<forall>j < length a. \<forall>w. \<not> occursAt uploadId buf j w"
      using exact [OF that] by simp
    show "snd (replacePlaceholder scr ed uploadId r)" if "editor_value ed = buf" for scr ed r
      using repl [OF that] by simp
    show "editor_value (fst (replacePlaceholder scr ed uploadId r))
                 = take k (editor_value ed) @ r
                     @ drop (k + length (span_text sp)) (editor_value ed)"
      if "editor_value ed = buf" for scr ed r
      using repl [OF that] by simp
  qed
  then show ?thesis unfolding buf_def word_def by blast
qed

lemma wildcards_eval:
  "optionalBang []" "threeWildcards (asc ''abc'')" "optionalSuffix []"
  by (simp_all add: optionalBang_def threeWildcards_def lineTerminator_def asc_def)

lemma findPlaceholder_editedEditor:
  "findPlaceholder (editor_value editedEditor) (asc ''17-1'')
     = Some \<lparr>span_start = 1, span_end = 13,
             span_text = placeholderWord [] (asc ''abc'') (asc ''17-1'') []\<rparr>"
  by (simp add: editedEditor_def placeholderWord_def find_eval)

theorem findPlaceholder_wildcards_witness:
  "regexLiteralId (asc ''17-1'') \<and> optionalBang [] \<and> threeWildcards (asc ''abc'')
   \<and> optionalSuffix []
   \<and> findPlaceholder (editor_value editedEditor) (asc ''17-1'')
       = Some \<lparr>span_start = 1, span_end = 13,
               span_text = placeholderWord [] (asc ''abc'') (asc ''17-1'') []\<rparr>
   \<and> snd (replacePlaceholder 0 editedEditor (asc ''17-1'') (asc ''LINK''))
   \<and> editor_value (fst (replacePlaceholder 0 editedEditor (asc ''17-1'') (asc ''LINK'')))
       = asc ''xLINKy''"
proof -
  have v: "editor_value editedEditor
             = asc ''x'' @ placeholderWord [] (asc ''abc'') (asc ''17-1'') [] @ asc ''y''"
    by (simp add: editedEditor_def)
  from findPlaceholder_wildcards [OF regexLiteralId_17_1 wildcards_eval, of "asc ''x''" "asc ''y''"]
  obtain sp k where
    f: "findPlaceholder (asc ''x'' @ placeholderWord [] (asc ''abc'') (asc ''17-1'') [] @ asc ''y'')
          (asc ''17-1'') = Some sp"
    and s: "span_start sp = int k"
    and r: "\<forall>scr ed r. editor_value ed
               = asc ''x'' @ placeholderWord [] (asc ''abc'') (asc ''17-1'') [] @ asc ''y'' \<longrightarrow>
             snd (replacePlaceholder scr ed (asc ''17-1'') r)
             \<and> editor_value (fst (replacePlaceholder scr ed (asc ''17-1'') r))
                 = take k (editor_value ed) @ r
                     @ drop (k + length (span_text sp)) (editor_value ed)"
    by blast
  from f findPlaceholder_editedEditor v
  have sp: "sp = \<lparr>span_start = 1, span_end = 13,
               span_text = placeholderWord [] (asc ''abc'') (asc ''17-1'') []\<rparr>"
    by simp
  with s have k: "k = 1" by simp
  from r v have "snd (replacePlaceholder 0 editedEditor (asc ''17-1'') (asc ''LINK''))
      \<and> editor_value (fst (replacePlaceholder 0 editedEditor (asc ''17-1'') (asc ''LINK'')))
          = take k (editor_value editedEditor) @ asc ''LINK''
              @ drop (k + length (span_text sp)) (editor_value editedEditor)"
    by blast
  then have "snd (replacePlaceholder 0 editedEditor (asc ''17-1'') (asc ''LINK''))
      \<and> editor_value (fst (replacePlaceholder 0 editedEditor (asc ''17-1'') (asc ''LINK'')))
          = asc ''xLINKy''"
    unfolding k sp
    by (simp add: editedEditor_def placeholderWord_def uploadingLabel_def asc_def)
  with regexLiteralId_17_1 wildcards_eval findPlaceholder_editedEditor show ?thesis by blast
qed

section \<open>Inserting a placeholder and finding it again\<close>

lemma substring_0_take: "substring s 0 b = take (clampIndex s b) s"
  by (simp add: substring_def clampIndex_def Let_def)

lemma insertPlaceholder_value:
  "editor_value (fst (insertPlaceholder scr now ed editorState phText uploadId st))
     = take (clampIndex (editor_value ed) (selectionStart editorState)) (editor_value ed)
         @ [10] @ phText @ [10, 10]
         @ drop (clampIndex (editor_value ed) (selectionStart editorState)) (editor_value ed)"
  by (simp add: insertPlaceholder_def Let_def assignValue_def substring_0_take
        substringFrom_def formatContent_def CONTENT_FORMAT_BEFORE_def CONTENT_FORMAT_AFTER_def)

lemma getPlaceholderText_isPlaceholder: "isPlaceholder uploadId (getPlaceholderText file uploadId)"
proof -
  have w: "threeWildcards (asc ''...'')"
    by (simp add: threeWildcards_def lineTerminator_def asc_def)
  have b: "optionalBang (asc ''!'')" "optionalBang []"
    by (simp_all add: optionalBang_def asc_def)
  have s: "optionalSuffix (asc ''|video'')" "optionalSuffix (asc ''|audio'')"
    "optionalSuffix (asc ''|attachment'')" "optionalSuffix []"
    by (simp_all add: asc_def lowerLetter_def)
  have "\<exists>bang suf. optionalBang bang \<and> optionalSuffix suf
          \<and> getPlaceholderText file uploadId = placeholderWord bang (asc ''...'') uploadId suf"
    unfolding getPlaceholderText_def Let_def placeholderWord_def
    using b s by (auto simp: asc_def)
  with w show ?thesis unfolding isPlaceholder_def by blast
qed

lemma isPlaceholder_no_newline:
  assumes "regexLiteralId uploadId" and "isPlaceholder uploadId w"
  shows "10 \<notin> set w"
proof -
  from assms(2) obtain bang d suf where p: "optionalBang bang" "threeWildcards d"
    "optionalSuffix suf" "w = bang @ [91] @ uploadingLabel @ d @ uploadId @ suf @ [93]"
    unfolding isPlaceholder_def placeholderWord_def by blast
  have "10 \<notin> set bang" using p(1) by (auto simp: optionalBang_def)
  moreover have "10 \<notin> set d"
    using p(2) by (auto simp: threeWildcards_def list_all_iff lineTerminator_def)
  moreover have "10 \<notin> set uploadId"
    using assms(1) by (auto simp: regexLiteralId_def list_all_iff idUnit_def)
  moreover have "10 \<notin> set suf"
    using optionalSuffix_units [OF p(3)] by (auto simp: lowerLetter_def)
  ultimately show ?thesis by (simp add: p(4) uploadingLabel_def)
qed

lemma isPlaceholder_first:
  assumes "isPlaceholder uploadId w"
  shows "\<exists>t. w = 33 # t \<or> w = 91 # t"
proof -
  from assms obtain bang d suf where p: "optionalBang bang"
    "w = bang @ [91] @ uploadingLabel @ d @ uploadId @ suf @ [93]"
    unfolding isPlaceholder_def placeholderWord_def by blast
  then show ?thesis by (auto simp: optionalBang_def)
qed

lemma prefix_before_unit:
  assumes "u @ x # v = w @ t" and "x \<notin> set w"
  shows "\<exists>t'. u = w @ t'"
proof -
  from assms(1) obtain us where "(u = w @ us \<and> us @ x # v = t) \<or> (u @ us = w \<and> x # v = us @ t)"
    by (auto simp: append_eq_append_conv2)
  then show ?thesis
  proof
    assume "u = w @ us \<and> us @ x # v = t"
    then show ?thesis by blast
  next
    assume h: "u @ us = w \<and> x # v = us @ t"
    show ?thesis
    proof (cases us)
      case Nil
      with h show ?thesis by auto
    next
      case (Cons y ys)
      with h have "x \<in> set w" by auto
      with assms(2) show ?thesis by simp
    qed
  qed
qed

lemma occursAt_before_newline:
  assumes lit: "regexLiteralId uploadId"
    and occ: "occursAt uploadId (pre @ 10 # rest) j w" and j: "j < length pre"
  shows "occursAt uploadId pre j w"
proof -
  from occ obtain t where w: "isPlaceholder uploadId w" and t: "drop j (pre @ 10 # rest) = w @ t"
    using occursAt_iff by blast
  from j t have "drop j pre @ 10 # rest = w @ t" by simp
  from prefix_before_unit [OF this isPlaceholder_no_newline [OF lit w]]
  show ?thesis using w occursAt_iff by blast
qed

lemma occursAt_not_at_newline: "\<not> occursAt uploadId (pre @ 10 # rest) (length pre) w"
proof
  assume "occursAt uploadId (pre @ 10 # rest) (length pre) w"
  then obtain t where w: "isPlaceholder uploadId w" and "drop (length pre) (pre @ 10 # rest) = w @ t"
    using occursAt_iff by blast
  then have "10 # rest = w @ t" by simp
  with isPlaceholder_first [OF w] show False by auto
qed

text \<open>An id that does not occur in the text at all has no placeholder word in any part
  of it; this is the case of an id that has just been generated.\<close>

lemma isPlaceholder_includes_id: "isPlaceholder uploadId w \<Longrightarrow> js_includes w uploadId"
proof -
  assume "isPlaceholder uploadId w"
  then obtain bang d suf where "w = (bang @ [91] @ uploadingLabel @ d) @ uploadId @ (suf @ [93])"
    unfolding isPlaceholder_def placeholderWord_def by auto
  then show ?thesis unfolding js_includes_iff by blast
qed

lemma findPlaceholder_fresh_id:
  assumes "\<not> js_includes buf uploadId"
  shows "findPlaceholder (substring buf 0 pos) uploadId = None"
proof -
  have "\<not> occursAt uploadId (take p buf) k w" for p k w
  proof
    assume "occursAt uploadId (take p buf) k w"
    then obtain t where w: "isPlaceholder uploadId w" and t: "drop k (take p buf) = w @ t"
      using occursAt_iff by blast
    from isPlaceholder_includes_id [OF w] obtain a b where ab: "w = a @ uploadId @ b"
      unfolding js_includes_iff by blast
    have "buf = take k (take p buf) @ drop k (take p buf) @ drop p buf"
      by (metis append_assoc append_take_drop_id)
    with t ab have "buf = (take k (take p buf) @ a) @ uploadId @ (b @ t @ drop p buf)"
      by simp
    then have "js_includes buf uploadId" unfolding js_includes_iff by blast
    with assms show False by simp
  qed
  then show ?thesis
    unfolding substring_0_take findPlaceholder_None_iff by blast
qed

text \<open>
  C2, as the code has it. When no placeholder word of the id stands in the text before
  the insertion point, the placeholder that \<open>insertPlaceholder\<close> writes there (after a
  newline, before two newlines) is what \<open>findPlaceholder\<close> returns for the id: the span
  starts one after the insertion point and its text is the generated placeholder. This
  holds for every file, every id of digits and hyphens, every text and every selection
  start (\<open>substring\<close> clamps it into the text); the hypothesis holds whenever the id
  does not occur in the text (\<open>findPlaceholder_fresh_id\<close>).
\<close>

theorem insertPlaceholder_findPlaceholder:
  assumes "regexLiteralId uploadId"
    and "findPlaceholder (substring (editor_value ed) 0 (selectionStart editorState)) uploadId
           = None"
  shows "findPlaceholder
           (editor_value (fst (insertPlaceholder scr now ed editorState
                                 (getPlaceholderText file uploadId) uploadId st)))
           uploadId
         = Some \<lparr>span_start
                   = int (clampIndex (editor_value ed) (selectionStart editorState)) + 1,
                 span_end
                   = int (clampIndex (editor_value ed) (selectionStart editorState)) + 1
                       + int (length (getPlaceholderText file uploadId)),
                 span_text = getPlaceholderText file uploadId\<rparr>"
proof -
  define p where "p = clampIndex (editor_value ed) (selectionStart editorState)"
  define pre where "pre = take p (editor_value ed)"
  define post where "post = drop p (editor_value ed)"
  define ph where "ph = getPlaceholderText file uploadId"
  have lp: "length pre = p"
    unfolding pre_def p_def clampIndex_def by simp
  have v: "editor_value (fst (insertPlaceholder scr now ed editorState ph uploadId st))
             = pre @ 10 # (ph @ [10, 10] @ post)"
    unfolding insertPlaceholder_value pre_def post_def p_def by simp
  from assms(2) have none: "\<forall>k w. \<not> occursAt uploadId pre k w"
    unfolding substring_0_take pre_def p_def findPlaceholder_None_iff .
  have ip: "isPlaceholder uploadId ph"
    unfolding ph_def by (rule getPlaceholderText_isPlaceholder)
  have "drop (Suc p) (pre @ 10 # (ph @ [10, 10] @ post)) = ph @ ([10, 10] @ post)"
    using lp by simp
  with ip have occ: "occursAt uploadId (pre @ 10 # (ph @ [10, 10] @ post)) (Suc p) ph"
    using occursAt_iff by blast
  have least: "\<forall>j < Suc p. \<forall>w'. \<not> occursAt uploadId (pre @ 10 # (ph @ [10, 10] @ post)) j w'"
  proof (intro allI impI)
    fix j w' assume "j < Suc p"
    then consider "j < length pre" | "j = length pre" using lp by linarith
    then show "\<not> occursAt uploadId (pre @ 10 # (ph @ [10, 10] @ post)) j w'"
    proof cases
      case 1
      with occursAt_before_newline [OF assms(1) _ 1] none show ?thesis by blast
    next
      case 2
      with occursAt_not_at_newline show ?thesis by simp
    qed
  qed
  have "findPlaceholder (pre @ 10 # (ph @ [10, 10] @ post)) uploadId
          = Some \<lparr>span_start = int (Suc p), span_end = int (Suc p) + int (length ph),
                  span_text = ph\<rparr>"
    by (rule findPlaceholder_at [OF occ least])
  then have "findPlaceholder
               (editor_value (fst (insertPlaceholder scr now ed editorState ph uploadId st)))
               uploadId
          = Some \<lparr>span_start = int p + 1, span_end = int p + 1 + int (length ph),
                  span_text = ph\<rparr>"
    by (simp only: v) simp
  then show ?thesis unfolding ph_def p_def .
qed

lemma findPlaceholder_before_plain:
  "findPlaceholder (substring (editor_value plainEditor) 0 (selectionStart plainEditor))
     (asc ''17-1'') = None"
  by (simp add: plainEditor_def substring_def clampIndex_def find_eval)

theorem insertPlaceholder_findPlaceholder_witness:
  "regexLiteralId (asc ''17-1'')
   \<and> findPlaceholder (substring (editor_value plainEditor) 0 (selectionStart plainEditor))
       (asc ''17-1'') = None
   \<and> editor_value (fst (insertPlaceholder 0 0 plainEditor plainEditor
                          (getPlaceholderText pngFile (asc ''17-1'')) (asc ''17-1'') emptyState))
       = asc ''a'' @ [10] @ getPlaceholderText pngFile (asc ''17-1'') @ [10, 10] @ asc ''b''
   \<and> findPlaceholder
        (editor_value (fst (insertPlaceholder 0 0 plainEditor plainEditor
                          (getPlaceholderText pngFile (asc ''17-1'')) (asc ''17-1'') emptyState)))
        (asc ''17-1'')
       = Some \<lparr>span_start = 2, span_end = 15,
               span_text = getPlaceholderText pngFile (asc ''17-1'')\<rparr>"
proof -
  have c: "clampIndex (editor_value plainEditor) (selectionStart plainEditor) = 1"
    by (simp add: plainEditor_def clampIndex_def asc_def)
  have l: "length (getPlaceholderText pngFile (asc ''17-1'')) = 13"
    by (simp add: getPlaceholderText_def getFileType_pngFile asc_def uploadingLabel_def)
  have v: "editor_value (fst (insertPlaceholder 0 0 plainEditor plainEditor
                          (getPlaceholderText pngFile (asc ''17-1'')) (asc ''17-1'') emptyState))
       = asc ''a'' @ [10] @ getPlaceholderText pngFile (asc ''17-1'') @ [10, 10] @ asc ''b''"
    unfolding insertPlaceholder_value c by (simp add: plainEditor_def asc_def)
  from insertPlaceholder_findPlaceholder [OF regexLiteralId_17_1 findPlaceholder_before_plain,
      of 0 0 pngFile emptyState]
  have "findPlaceholder
        (editor_value (fst (insertPlaceholder 0 0 plainEditor plainEditor
                          (getPlaceholderText pngFile (asc ''17-1'')) (asc ''17-1'') emptyState)))
        (asc ''17-1'')
       = Some \<lparr>span_start = 2, span_end = 15,
               span_text = getPlaceholderText pngFile (asc ''17-1'')\<rparr>"
    unfolding c l by simp
  with regexLiteralId_17_1 findPlaceholder_before_plain v show ?thesis by blast
qed

text \<open>The claim as it is written (any text) fails on a text that already holds a word of
  the id's pattern before the insertion point: the lookup returns that word, which is not
  the placeholder generated for the image.\<close>

theorem insertPlaceholder_findPlaceholder_counterexample:
  "findPlaceholder
     (editor_value (fst (insertPlaceholder 0 0 staleEditor staleEditor
                       (getPlaceholderText pngFile (asc ''17-1'')) (asc ''17-1'') emptyState)))
     (asc ''17-1'')
     = Some \<lparr>span_start = 0, span_end = 12,
             span_text = placeholderWord [] (asc ''...'') (asc ''17-1'') []\<rparr>
   \<and> placeholderWord [] (asc ''...'') (asc ''17-1'') []
       \<noteq> getPlaceholderText pngFile (asc ''17-1'')"
  by (simp add: insertPlaceholder_value staleEditor_def clampIndex_def placeholderWord_def
        getPlaceholderText_def getFileType_pngFile find_eval)

section \<open>Placeholders of two ids do not overlap\<close>

lemma drop_nth:
  assumes "drop g buf = c" and "i < length c"
  shows "buf ! (g + i) = c ! i"
proof -
  from assms have "g \<le> length buf" by (cases "g \<le> length buf") auto
  then show ?thesis using assms(1) nth_drop [of g buf i] by simp
qed

lemma shape_core:
  assumes d: "drop g buf = 91 # 19978 # 20256 # 20013 # d1 # d2 # d3 # (uploadId @ suf @ 93 # t)"
    and lit: "regexLiteralId uploadId" and suf: "optionalSuffix suf"
    and k: "g = k \<or> (g = Suc k \<and> buf ! k = 33)"
  shows "placeholderShape uploadId buf k g (g + 8 + length uploadId + length suf)"
proof -
  define c where "c = 91 # 19978 # 20256 # 20013 # d1 # d2 # d3 # (uploadId @ suf @ 93 # t)"
  define x where "x = uploadId @ suf @ 93 # t"
  have lc: "length c = 8 + length uploadId + length suf + length t"
    by (simp add: c_def)
  have n: "buf ! (g + i) = c ! i" if "i < length c" for i
    using drop_nth [of g buf c i] d that by (simp add: c_def)
  have len: "length (drop g buf) = length c" using d by (simp add: c_def)
  then have e: "g + 8 + length uploadId + length suf \<le> length buf"
    using lc by simp
  have c0: "buf ! g = 91" using n [of 0] lc by (simp add: c_def)
  have c1: "buf ! (g + 1) = 19978" using n [of 1] lc by (simp add: c_def)
  have c2: "buf ! (g + 2) = 20256" using n [of 2] lc by (simp add: c_def)
  have c3: "buf ! (g + 3) = 20013" using n [of 3] lc by (simp add: c_def)
  have cx: "buf ! (g + 7 + j) = x ! j" if "j < length x" for j
  proof -
    from that have "7 + j < length c" by (simp add: c_def x_def)
    from n [OF this] show ?thesis by (simp add: c_def x_def add.assoc)
  qed
  have lx: "length x = length uploadId + length suf + 1 + length t" by (simp add: x_def)
  have last: "buf ! (g + 8 + length uploadId + length suf - 1) = 93"
  proof -
    have "((uploadId @ suf) @ 93 # t) ! length (uploadId @ suf) = 93"
      by (rule nth_append_length)
    then have "x ! (length uploadId + length suf) = 93"
      by (simp add: x_def)
    with cx [of "length uploadId + length suf"] lx
    have "buf ! (g + 7 + (length uploadId + length suf)) = 93" by simp
    moreover have "g + 8 + length uploadId + length suf - 1
                     = g + 7 + (length uploadId + length suf)"
      by simp
    ultimately show ?thesis by (simp only:)
  qed
  have tail: "tailUnit (buf ! i)"
    if "g + 7 \<le> i \<and> i < g + 8 + length uploadId + length suf - 1" for i
  proof -
    define j where "j = i - (g + 7)"
    from that have j: "j < length uploadId + length suf" and i: "i = g + 7 + j"
      unfolding j_def by linarith+
    have xa: "x = (uploadId @ suf) @ 93 # t" by (simp add: x_def)
    have "x ! j = (uploadId @ suf) ! j"
      unfolding xa using j by (subst nth_append) simp
    moreover from j have "(uploadId @ suf) ! j \<in> set (uploadId @ suf)"
      by (intro nth_mem) simp
    moreover have "\<forall>u \<in> set (uploadId @ suf). tailUnit u"
      using lit optionalSuffix_units [OF suf]
      by (auto simp: regexLiteralId_def list_all_iff tailUnit_def)
    ultimately have "tailUnit (x ! j)" by simp
    with cx [of j] j lx i show ?thesis by simp
  qed
  have idn: "buf ! (g + 7 + i) = uploadId ! i" if "i < length uploadId" for i
    using cx [of i] that lx by (simp add: x_def nth_append)
  have after: "buf ! (g + 7 + length uploadId) = 93 \<or> buf ! (g + 7 + length uploadId) = 124"
  proof -
    have "x ! length uploadId = (suf @ 93 # t) ! 0" by (simp add: x_def nth_append)
    also have "\<dots> = 93 \<or> \<dots> = 124" using suf by (cases suf) auto
    finally show ?thesis using cx [of "length uploadId"] lx by auto
  qed
  show ?thesis
    unfolding placeholderShape_def
    using k e c0 c1 c2 c3 last tail idn after by simp
qed

lemma occursAt_shape:
  assumes lit: "regexLiteralId uploadId" and occ: "occursAt uploadId buf k w"
  shows "\<exists>g. placeholderShape uploadId buf k g (k + length w)"
proof -
  from occ obtain t where w: "isPlaceholder uploadId w" and t: "drop k buf = w @ t"
    using occursAt_iff by blast
  from w obtain bang d suf where p: "optionalBang bang" "threeWildcards d" "optionalSuffix suf"
    "w = bang @ [91] @ uploadingLabel @ d @ uploadId @ suf @ [93]"
    unfolding isPlaceholder_def placeholderWord_def by blast
  from p(2) obtain d1 d2 d3 where d: "d = [d1, d2, d3]"
    by (auto simp: threeWildcards_def length_Suc_conv numeral_3_eq_3)
  from p(1) show ?thesis unfolding optionalBang_def
  proof
    assume b: "bang = []"
    with t p(4) d
    have "drop k buf = 91 # 19978 # 20256 # 20013 # d1 # d2 # d3 # (uploadId @ suf @ 93 # t)"
      by (simp add: uploadingLabel_def)
    from shape_core [OF this lit p(3), of k]
    have "placeholderShape uploadId buf k k (k + 8 + length uploadId + length suf)" by simp
    moreover have "k + 8 + length uploadId + length suf = k + length w"
      using p(4) d b by (simp add: uploadingLabel_def)
    ultimately have "placeholderShape uploadId buf k k (k + length w)" by (simp only:)
    then show ?thesis by blast
  next
    assume b: "bang = [33]"
    with t p(4) d
    have dk: "drop k buf = 33 # 91 # 19978 # 20256 # 20013 # d1 # d2 # d3 # (uploadId @ suf @ 93 # t)"
      by (simp add: uploadingLabel_def)
    then have k0: "buf ! k = 33" using drop_nth [of k buf _ 0] by simp
    have "drop (Suc k) buf = drop 1 (drop k buf)" by simp
    with dk
    have "drop (Suc k) buf = 91 # 19978 # 20256 # 20013 # d1 # d2 # d3 # (uploadId @ suf @ 93 # t)"
      by simp
    from shape_core [OF this lit p(3), of k] k0
    have "placeholderShape uploadId buf k (Suc k) (Suc k + 8 + length uploadId + length suf)"
      by simp
    moreover have "Suc k + 8 + length uploadId + length suf = k + length w"
      using p(4) d b by (simp add: uploadingLabel_def)
    ultimately have "placeholderShape uploadId buf k (Suc k) (k + length w)" by (simp only:)
    then show ?thesis by blast
  qed
qed

lemma not_tailUnit:
  "\<not> tailUnit 91" "\<not> tailUnit 33" "\<not> tailUnit 93"
  "\<not> tailUnit 19978" "\<not> tailUnit 20256" "\<not> tailUnit 20013"
  by (simp_all add: tailUnit_def idUnit_def lowerLetter_def)

lemma shape_anchor_order:
  assumes s1: "placeholderShape id1 buf k1 g1 e1"
    and s2: "placeholderShape id2 buf k2 g2 e2"
    and lt: "g1 < g2" and ov: "k2 < e1"
  shows False
proof -
  from s1 have l1: "buf ! (g1 + 1) = 19978" "buf ! (g1 + 2) = 20256" "buf ! (g1 + 3) = 20013"
    and last1: "buf ! (e1 - 1) = 93" and len1: "g1 + 8 \<le> e1"
    and tail1: "\<And>i. g1 + 7 \<le> i \<Longrightarrow> i < e1 - 1 \<Longrightarrow> tailUnit (buf ! i)"
    unfolding placeholderShape_def by simp_all
  from s2 have k2: "g2 = k2 \<or> (g2 = Suc k2 \<and> buf ! k2 = 33)"
    and l2: "buf ! g2 = 91" "buf ! (g2 + 1) = 19978" "buf ! (g2 + 2) = 20256"
      "buf ! (g2 + 3) = 20013"
    unfolding placeholderShape_def by simp_all
  consider (a) "e1 \<le> g2" | (b) "g2 = e1 - 1" | (c) "g1 + 7 \<le> g2" "g2 < e1 - 1"
    | (d1) "g2 = g1 + 1" | (d2) "g2 = g1 + 2" | (d3) "g2 = g1 + 3"
    | (e4) "g2 = g1 + 4" | (e5) "g2 = g1 + 5" | (e6) "g2 = g1 + 6"
    using lt by linarith
  then show False
  proof cases
    case a
    with ov k2 have "k2 = e1 - 1" "buf ! k2 = 33" by auto
    with last1 show False by simp
  next
    case b
    with last1 l2(1) show False by simp
  next
    case c
    from tail1 [OF c] l2(1) not_tailUnit(1) show False by simp
  next
    case d1
    with l1(1) l2(1) show False by simp
  next
    case d2
    with l1(2) l2(1) show False by simp
  next
    case d3
    with l1(3) l2(1) show False by simp
  next
    case e4
    then have "g1 + 7 = g2 + 3" by simp
    then have v: "buf ! (g1 + 7) = 20013" using l2(4) by (simp only:)
    show False
    proof (cases "g1 + 7 < e1 - 1")
      case True
      from tail1 [OF _ True] v not_tailUnit(6) show False by simp
    next
      case False
      with len1 have "g1 + 7 = e1 - 1" by linarith
      with last1 v show False by simp
    qed
  next
    case e5
    then have "g1 + 7 = g2 + 2" by simp
    then have v: "buf ! (g1 + 7) = 20256" using l2(3) by (simp only:)
    show False
    proof (cases "g1 + 7 < e1 - 1")
      case True
      from tail1 [OF _ True] v not_tailUnit(5) show False by simp
    next
      case False
      with len1 have "g1 + 7 = e1 - 1" by linarith
      with last1 v show False by simp
    qed
  next
    case e6
    then have "g1 + 7 = g2 + 1" by simp
    then have v: "buf ! (g1 + 7) = 19978" using l2(2) by (simp only:)
    show False
    proof (cases "g1 + 7 < e1 - 1")
      case True
      from tail1 [OF _ True] v not_tailUnit(4) show False by simp
    next
      case False
      with len1 have "g1 + 7 = e1 - 1" by linarith
      with last1 v show False by simp
    qed
  qed
qed

lemma shape_id_length:
  assumes lit2: "regexLiteralId id2"
    and s1: "placeholderShape id1 buf k1 g e1" and s2: "placeholderShape id2 buf k2 g e2"
  shows "\<not> length id1 < length id2"
proof
  assume lt: "length id1 < length id2"
  from s1 have "buf ! (g + 7 + length id1) = 93 \<or> buf ! (g + 7 + length id1) = 124"
    unfolding placeholderShape_def by simp
  moreover from s2 lt have "buf ! (g + 7 + length id1) = id2 ! length id1"
    unfolding placeholderShape_def by simp
  moreover from lit2 lt have "idUnit (id2 ! length id1)"
    by (simp add: regexLiteralId_def list_all_length)
  ultimately show False by (auto simp: idUnit_def)
qed

lemma shape_same_anchor:
  assumes "regexLiteralId id1" and "regexLiteralId id2"
    and s1: "placeholderShape id1 buf k1 g e1" and s2: "placeholderShape id2 buf k2 g e2"
  shows "id1 = id2"
proof (rule nth_equalityI)
  from shape_id_length [OF assms(2) s1 s2] shape_id_length [OF assms(1) s2 s1]
  show len: "length id1 = length id2" by simp
  fix i assume i: "i < length id1"
  with s1 have "buf ! (g + 7 + i) = id1 ! i" unfolding placeholderShape_def by simp
  moreover from s2 i len have "buf ! (g + 7 + i) = id2 ! i"
    unfolding placeholderShape_def by simp
  ultimately show "id1 ! i = id2 ! i" by simp
qed

lemma occurrences_disjoint:
  assumes lit: "regexLiteralId id1" "regexLiteralId id2" and ne: "id1 \<noteq> id2"
    and o1: "occursAt id1 buf k1 w1" and o2: "occursAt id2 buf k2 w2"
  shows "k1 + length w1 \<le> k2 \<or> k2 + length w2 \<le> k1"
proof (rule ccontr)
  assume "\<not> (k1 + length w1 \<le> k2 \<or> k2 + length w2 \<le> k1)"
  then have ov: "k2 < k1 + length w1" "k1 < k2 + length w2" by simp_all
  from occursAt_shape [OF lit(1) o1] obtain g1
    where s1: "placeholderShape id1 buf k1 g1 (k1 + length w1)" by blast
  from occursAt_shape [OF lit(2) o2] obtain g2
    where s2: "placeholderShape id2 buf k2 g2 (k2 + length w2)" by blast
  consider "g1 < g2" | "g2 < g1" | "g1 = g2" by linarith
  then show False
  proof cases
    case 1
    from shape_anchor_order [OF s1 s2 1 ov(1)] show False .
  next
    case 2
    from shape_anchor_order [OF s2 s1 2 ov(2)] show False .
  next
    case 3
    with shape_same_anchor [OF lit, of buf k1 g1 _ k2] s1 s2 ne show False by blast
  qed
qed

section \<open>The frame of a replacement\<close>

lemma substring_nat:
  "a \<le> b \<Longrightarrow> b \<le> length s \<Longrightarrow> substring s (int a) (int b) = take (b - a) (drop a s)"
  by (simp add: substring_def clampIndex_def Let_def min_def max_def)

lemma take_drop_common_prefix:
  assumes "take m a = take m b" and "k + n \<le> m"
  shows "take n (drop k a) = take n (drop k b)"
proof -
  have "take n (drop k a) = drop k (take (k + n) a)" by (simp add: take_drop add.commute)
  also have "take (k + n) a = take (k + n) (take m a)" using assms(2) by (simp add: min_def)
  also have "\<dots> = take (k + n) (take m b)" by (simp only: assms(1))
  also have "\<dots> = take (k + n) b" using assms(2) by (simp add: min_def)
  also have "drop k (take (k + n) b) = take n (drop k b)" by (simp add: take_drop add.commute)
  finally show ?thesis .
qed

text \<open>
  C4. With the placeholders of two different ids in the text, replacing the one of the
  first id rewrites its span only: the new text is the old text before the span, the
  replacement, and the old text after the span. The span of the other id lies wholly
  before or wholly after the replaced span, and its text stands unchanged in the new
  text, at the same offsets when it is before and shifted by the change of length when
  it is after.
\<close>

theorem replacePlaceholder_frame:
  assumes "regexLiteralId id1" and "regexLiteralId id2" and "id1 \<noteq> id2"
    and f1: "findPlaceholder (editor_value ed) id1 = Some sp1"
    and f2: "findPlaceholder (editor_value ed) id2 = Some sp2"
  shows "editor_value (fst (replacePlaceholder scr ed id1 r))
           = take (nat (span_start sp1)) (editor_value ed) @ r
               @ drop (nat (span_end sp1)) (editor_value ed)
       \<and> take (nat (span_start sp1)) (editor_value (fst (replacePlaceholder scr ed id1 r)))
           = take (nat (span_start sp1)) (editor_value ed)
       \<and> drop (nat (span_start sp1) + length r)
              (editor_value (fst (replacePlaceholder scr ed id1 r)))
           = drop (nat (span_end sp1)) (editor_value ed)
       \<and> (span_end sp2 \<le> span_start sp1 \<or> span_end sp1 \<le> span_start sp2)
       \<and> (span_end sp2 \<le> span_start sp1 \<longrightarrow>
             substring (editor_value (fst (replacePlaceholder scr ed id1 r)))
               (span_start sp2) (span_end sp2) = span_text sp2)
       \<and> (span_end sp1 \<le> span_start sp2 \<longrightarrow>
             substring (editor_value (fst (replacePlaceholder scr ed id1 r)))
               (span_start sp2 + (int (length r) - (span_end sp1 - span_start sp1)))
               (span_end sp2 + (int (length r) - (span_end sp1 - span_start sp1)))
               = span_text sp2)"
proof -
  define buf where "buf = editor_value ed"
  define new where "new = editor_value (fst (replacePlaceholder scr ed id1 r))"
  from findPlaceholder_SomeD [OF f1] obtain k1 where 1: "occursAt id1 buf k1 (span_text sp1)"
    "span_start sp1 = int k1" "span_end sp1 = int k1 + int (length (span_text sp1))"
    unfolding buf_def by blast
  from findPlaceholder_SomeD [OF f2] obtain k2 where 2: "occursAt id2 buf k2 (span_text sp2)"
    "span_start sp2 = int k2" "span_end sp2 = int k2 + int (length (span_text sp2))"
    unfolding buf_def by blast
  define n1 where "n1 = length (span_text sp1)"
  define n2 where "n2 = length (span_text sp2)"
  from occursAt_bound [OF 1(1)] have b1: "k1 + n1 \<le> length buf" by (simp add: n1_def)
  from occursAt_bound [OF 2(1)] have b2: "k2 + n2 \<le> length buf" by (simp add: n2_def)
  from 2(1) have w2: "take n2 (drop k2 buf) = span_text sp2"
    by (simp add: occursAt_def n2_def)
  have s1: "nat (span_start sp1) = k1" and e1: "nat (span_end sp1) = k1 + n1"
    using 1(2,3) by (simp_all add: n1_def)
  have v: "new = take k1 buf @ r @ drop (k1 + n1) buf"
    unfolding new_def replacePlaceholder_found_value [OF f1] s1 e1 buf_def ..
  have lt: "length (take k1 buf) = k1" using b1 by simp
  have pre: "take k1 new = take k1 buf" unfolding v using lt by simp
  have post: "drop (k1 + length r) new = drop (k1 + n1) buf" unfolding v using lt by simp
  have ln: "length new = k1 + length r + (length buf - (k1 + n1))"
    unfolding v using b1 by simp
  from occurrences_disjoint [OF assms(1,2,3) 1(1) 2(1)]
  have dis: "k1 + n1 \<le> k2 \<or> k2 + n2 \<le> k1" by (simp add: n1_def n2_def)
  have before: "substring new (int k2) (int k2 + int n2) = span_text sp2" if h: "k2 + n2 \<le> k1"
  proof -
    from h ln have "k2 + n2 \<le> length new" by simp
    then have "substring new (int k2) (int (k2 + n2)) = take n2 (drop k2 new)"
      using substring_nat [of k2 "k2 + n2" new] by simp
    also have "\<dots> = take n2 (drop k2 buf)"
      by (rule take_drop_common_prefix [OF pre h])
    finally show ?thesis using w2 by simp
  qed
  have after: "substring new (int k2 + (int (length r) - int n1))
                 (int k2 + int n2 + (int (length r) - int n1)) = span_text sp2"
    if h: "k1 + n1 \<le> k2"
  proof -
    define j where "j = k2 - (k1 + n1)"
    from h have k2: "k2 = k1 + n1 + j" by (simp add: j_def)
    have a: "int k2 + (int (length r) - int n1) = int (k1 + length r + j)"
      using k2 by simp
    have b: "int k2 + int n2 + (int (length r) - int n1) = int (k1 + length r + j + n2)"
      using k2 by simp
    from b2 k2 ln have "k1 + length r + j + n2 \<le> length new" by simp
    then have "substring new (int (k1 + length r + j)) (int (k1 + length r + j + n2))
                 = take n2 (drop (k1 + length r + j) new)"
      using substring_nat [of "k1 + length r + j" "k1 + length r + j + n2" new] by simp
    also have "drop (k1 + length r + j) new = drop j (drop (k1 + length r) new)"
      by (simp add: add.commute)
    also have "\<dots> = drop k2 buf" unfolding post using k2 by (simp add: add.commute)
    finally show ?thesis unfolding a b using w2 by simp
  qed
  show ?thesis
  proof (intro conjI impI)
    show "editor_value (fst (replacePlaceholder scr ed id1 r))
            = take (nat (span_start sp1)) (editor_value ed) @ r
                @ drop (nat (span_end sp1)) (editor_value ed)"
      by (rule replacePlaceholder_found_value [OF f1])
    show "take (nat (span_start sp1)) (editor_value (fst (replacePlaceholder scr ed id1 r)))
            = take (nat (span_start sp1)) (editor_value ed)"
      using pre unfolding new_def buf_def s1 .
    show "drop (nat (span_start sp1) + length r)
               (editor_value (fst (replacePlaceholder scr ed id1 r)))
            = drop (nat (span_end sp1)) (editor_value ed)"
      using post unfolding new_def buf_def s1 e1 .
    show "span_end sp2 \<le> span_start sp1 \<or> span_end sp1 \<le> span_start sp2"
      using dis unfolding 1(2,3) 2(2,3) n1_def n2_def by linarith
    show "substring (editor_value (fst (replacePlaceholder scr ed id1 r)))
               (span_start sp2) (span_end sp2) = span_text sp2"
      if "span_end sp2 \<le> span_start sp1"
    proof -
      from that have "k2 + n2 \<le> k1" unfolding 1(2) 2(3) n2_def by linarith
      from before [OF this] show ?thesis
        unfolding new_def 2(2,3) n2_def .
    qed
    show "substring (editor_value (fst (replacePlaceholder scr ed id1 r)))
               (span_start sp2 + (int (length r) - (span_end sp1 - span_start sp1)))
               (span_end sp2 + (int (length r) - (span_end sp1 - span_start sp1)))
               = span_text sp2"
      if "span_end sp1 \<le> span_start sp2"
    proof -
      from that have "k1 + n1 \<le> k2" unfolding 1(3) 2(2) n1_def by linarith
      moreover have "span_end sp1 - span_start sp1 = int n1"
        unfolding 1(2,3) n1_def by simp
      ultimately show ?thesis
        using after unfolding new_def 2(2,3) n2_def by simp
    qed
  qed
qed

lemma regexLiteralId_17_2: "regexLiteralId (asc ''17-2'')"
  by (simp add: regexLiteralId_def idUnit_def asc_def)

lemma findPlaceholder_twoEditor:
  "findPlaceholder (editor_value twoEditor) (asc ''17-2'')
     = Some \<lparr>span_start = 14, span_end = 37,
             span_text = getPlaceholderText bigPdf (asc ''17-2'')\<rparr>"
  "findPlaceholder (editor_value twoEditor) (asc ''17-1'')
     = Some \<lparr>span_start = 0, span_end = 13,
             span_text = getPlaceholderText pngFile (asc ''17-1'')\<rparr>"
  by (simp_all add: twoEditor_def getPlaceholderText_def getFileType_bigPdf getFileType_pngFile
        find_eval)

theorem replacePlaceholder_frame_witness:
  "regexLiteralId (asc ''17-2'') \<and> regexLiteralId (asc ''17-1'') \<and> asc ''17-2'' \<noteq> asc ''17-1''
   \<and> findPlaceholder (editor_value twoEditor) (asc ''17-2'')
       = Some \<lparr>span_start = 14, span_end = 37,
               span_text = getPlaceholderText bigPdf (asc ''17-2'')\<rparr>
   \<and> findPlaceholder (editor_value twoEditor) (asc ''17-1'')
       = Some \<lparr>span_start = 0, span_end = 13,
               span_text = getPlaceholderText pngFile (asc ''17-1'')\<rparr>
   \<and> editor_value (fst (replacePlaceholder 0 twoEditor (asc ''17-2'') (asc ''LINK'')))
       = getPlaceholderText pngFile (asc ''17-1'') @ [10] @ asc ''LINK''
   \<and> substring (editor_value (fst (replacePlaceholder 0 twoEditor (asc ''17-2'') (asc ''LINK''))))
        0 13 = getPlaceholderText pngFile (asc ''17-1'')"
proof -
  have ne: "asc ''17-2'' \<noteq> asc ''17-1''" by (simp add: asc_def)
  note inst = replacePlaceholder_frame [OF regexLiteralId_17_2 regexLiteralId_17_1 ne
      findPlaceholder_twoEditor, of 0 "asc ''LINK''"]
  note i = inst [simplified]
  from i have v: "editor_value (fst (replacePlaceholder 0 twoEditor (asc ''17-2'') (asc ''LINK'')))
       = take 14 (editor_value twoEditor) @ asc ''LINK'' @ drop 37 (editor_value twoEditor)"
    by (rule conjunct1)
  have "take 14 (editor_value twoEditor) = getPlaceholderText pngFile (asc ''17-1'') @ [10]"
    and "drop 37 (editor_value twoEditor) = []"
    by (simp_all add: twoEditor_def getPlaceholderText_def getFileType_bigPdf
          getFileType_pngFile asc_def uploadingLabel_def)
  with v have v': "editor_value (fst (replacePlaceholder 0 twoEditor (asc ''17-2'') (asc ''LINK'')))
       = getPlaceholderText pngFile (asc ''17-1'') @ [10] @ asc ''LINK''"
    by simp
  from i have s: "substring (editor_value (fst (replacePlaceholder 0 twoEditor (asc ''17-2'')
         (asc ''LINK'')))) 0 13 = getPlaceholderText pngFile (asc ''17-1'')"
    by (elim conjE)
  from regexLiteralId_17_2 regexLiteralId_17_1 ne findPlaceholder_twoEditor v' s
  show ?thesis by blast
qed

end
